theory Spec2Isabelle
  imports Complex_Main "HOL-Library.AList"
begin

section \<open>Vaayu: risk-aware routing (services/navigation.py, api/routes.py)\<close>

text \<open>
  The embedding follows \<^verbatim>\<open>src/services/navigation.py\<close> and the route handler
  \<^verbatim>\<open>get_safest_route\<close> of \<^verbatim>\<open>src/api/routes.py\<close>.

  \<^item> Python \<^verbatim>\<open>float\<close> coordinates are modelled as \<^typ>\<open>real\<close>: the only arithmetic
    on them is the midpoint \<^verbatim>\<open>(a + b) / 2\<close>, and no statement below depends on how
    that value is rounded.
  \<^item> A Python \<^verbatim>\<open>dict\<close> that is iterated (\<^verbatim>\<open>MAP_NODES\<close>, the adjacency of the graph)
    is an association list in insertion order, updated with \<^const>\<open>AList.update\<close>
    (an existing key keeps its place, a new key goes to the end); a dict that is only
    looked up (\<^verbatim>\<open>dist\<close>, \<^verbatim>\<open>seen\<close>, \<^verbatim>\<open>paths\<close>) is a map.
  \<^item> Every exception is a value of \<open>exn\<close>; a function that can raise returns
    \<open>exn + 'a\<close>, with \<open>Inl\<close> the exception.
\<close>

subsection \<open>Exceptions\<close>

datatype exn =
    OperationalError        \<comment> \<open>the database session could not run the query\<close>
  | KeyError
  | IndexError
  | NodeNotFound
  | NetworkXNoPath
  | ValueError
  | HTTPException int string  \<comment> \<open>status code, detail\<close>

subsection \<open>The risk-zone table and its point query (db/models.py)\<close>

type_synonym coords = "real \<times> real"  \<comment> \<open>(longitude, latitude)\<close>

record RiskZone =
  zone_id :: int
  zone_name :: string
  zone :: "coords list"   \<comment> \<open>the POLYGON, as its ring of vertices\<close>
  risk_score :: int

text \<open>
  The session is the external collaborator: the rows of table \<^verbatim>\<open>risk_zones\<close> in the
  order the query returns them, the PostGIS predicate \<^verbatim>\<open>ST_DWithin\<close> (geometry, point,
  distance), and the points at which running the query raises.
\<close>

record Session =
  risk_zones :: "RiskZone list"
  ST_DWithin :: "coords list \<Rightarrow> coords \<Rightarrow> real \<Rightarrow> bool"
  query_fails :: "coords \<Rightarrow> bool"

text \<open>
  \<^verbatim>\<open>db.query(models.RiskZone).filter(func.ST_DWithin(models.RiskZone.zone, p, 0)).first()\<close>:
  the first row whose zone is within distance 0 of the point, or \<^verbatim>\<open>None\<close>.
\<close>

definition query_first :: "Session \<Rightarrow> coords \<Rightarrow> exn + RiskZone option" where
  "query_first db p =
     (if query_fails db p then Inl OperationalError
      else Inr (find (\<lambda>z. ST_DWithin db (zone z) p 0) (risk_zones db)))"

subsection \<open>The map and the edge weight (services/navigation.py)\<close>

definition MAP_NODES :: "(string \<times> coords) list" where
  "MAP_NODES =
     [(''A_Home'', (-74.0060, 40.7128)),
      (''B_Intersection'', (-73.9960, 40.7228)),
      (''C_Risky_Area'', (-73.9860, 40.7328)),
      (''D_Intersection'', (-73.9950, 40.7428)),
      (''E_Work'', (-73.9850, 40.7528))]"

definition MAP_EDGES :: "(string \<times> string) list" where
  "MAP_EDGES =
     [(''A_Home'', ''B_Intersection''),
      (''B_Intersection'', ''C_Risky_Area''),
      (''B_Intersection'', ''D_Intersection''),
      (''C_Risky_Area'', ''E_Work''),
      (''D_Intersection'', ''E_Work'')]"

definition midpoint :: "coords \<Rightarrow> coords \<Rightarrow> coords" where
  "midpoint node1_coords node2_coords =
     ((fst node1_coords + fst node2_coords) / 2, (snd node1_coords + snd node2_coords) / 2)"

definition get_edge_risk_weight :: "coords \<Rightarrow> coords \<Rightarrow> Session \<Rightarrow> exn + int" where
  "get_edge_risk_weight node1_coords node2_coords db =
     (let mid_lon = (fst node1_coords + fst node2_coords) / 2;
          mid_lat = (snd node1_coords + snd node2_coords) / 2;
          geography_midpoint = (mid_lon, mid_lat)
      in case query_first db geography_midpoint of
           Inl e \<Rightarrow> Inl e
         | Inr is_in_risk_zone \<Rightarrow>
             (case is_in_risk_zone of Some z \<Rightarrow> Inr 100 | None \<Rightarrow> Inr 1))"

subsection \<open>The graph (networkx.Graph)\<close>

text \<open>
  \<^verbatim>\<open>networkx\<close> is a third-party library, not part of the repository; the three
  operations the program calls (\<^verbatim>\<open>add_node\<close>, \<^verbatim>\<open>add_edge\<close>, \<^verbatim>\<open>dijkstra_path\<close>) are
  modelled from the library's published source. A \<^verbatim>\<open>Graph\<close> holds the dict \<^verbatim>\<open>_node\<close>
  (node to attributes; the only attribute ever set is \<^verbatim>\<open>pos\<close>) and the dict of dicts
  \<^verbatim>\<open>_adj\<close> (node to neighbour to edge data; the only edge datum ever set is
  \<^verbatim>\<open>weight\<close>, so the edge data is that integer).
\<close>

record Graph =
  node_attr :: "(string \<times> coords option) list"
  adj :: "(string \<times> (string \<times> int) list) list"

definition empty_graph :: Graph where
  "empty_graph = \<lparr>node_attr = [], adj = []\<rparr>"

definition add_node :: "string \<Rightarrow> coords \<Rightarrow> Graph \<Rightarrow> Graph" where
  "add_node n pos G =
     (if map_of (node_attr G) n = None
      then G\<lparr>adj := AList.update n [] (adj G), node_attr := AList.update n (Some pos) (node_attr G)\<rparr>
      else G\<lparr>node_attr := AList.update n (Some pos) (node_attr G)\<rparr>)"

definition ensure_node :: "string \<Rightarrow> Graph \<Rightarrow> Graph" where
  \<comment> \<open>the guard at the head of \<^verbatim>\<open>add_edge\<close>: an endpoint not yet in \<^verbatim>\<open>_node\<close> is created\<close>
  "ensure_node n G =
     (if map_of (node_attr G) n = None
      then G\<lparr>adj := AList.update n [] (adj G), node_attr := AList.update n None (node_attr G)\<rparr>
      else G)"

definition add_edge :: "string \<Rightarrow> string \<Rightarrow> int \<Rightarrow> Graph \<Rightarrow> Graph" where
  "add_edge u v weight G =
     (let G1 = ensure_node v (ensure_node u G);
          adj1 = AList.map_entry u (AList.update v weight) (adj G1);
          adj2 = AList.map_entry v (AList.update u weight) adj1
      in G1\<lparr>adj := adj2\<rparr>)"

fun add_nodes :: "(string \<times> coords) list \<Rightarrow> Graph \<Rightarrow> Graph" where
  "add_nodes [] G = G"
| "add_nodes ((node_name, coords) # rest) G = add_nodes rest (add_node node_name coords G)"

text \<open>
  The module constants \<^verbatim>\<open>MAP_NODES\<close> and \<^verbatim>\<open>MAP_EDGES\<close> are read by the functions
  below; the functions \<open>\<dots>_on\<close> take them as the arguments \<open>nodes\<close> and \<open>edges\<close>, and
  the program's functions are these at the two constants.
\<close>

fun add_edges :: "(string \<times> coords) list \<Rightarrow> (string \<times> string) list \<Rightarrow> Session \<Rightarrow> Graph \<Rightarrow> exn + Graph" where
  "add_edges nodes [] db G = Inr G"
| "add_edges nodes ((u, v) # rest) db G =
     (case map_of nodes u of None \<Rightarrow> Inl KeyError
      | Some cu \<Rightarrow>
        (case map_of nodes v of None \<Rightarrow> Inl KeyError
         | Some cv \<Rightarrow>
           (case get_edge_risk_weight cu cv db of Inl e \<Rightarrow> Inl e
            | Inr weight \<Rightarrow> add_edges nodes rest db (add_edge u v weight G))))"

definition create_map_graph_on :: "(string \<times> coords) list \<Rightarrow> (string \<times> string) list \<Rightarrow> Session \<Rightarrow> exn + Graph" where
  "create_map_graph_on nodes edges db = add_edges nodes edges db (add_nodes nodes empty_graph)"

definition create_map_graph :: "Session \<Rightarrow> exn + Graph" where
  "create_map_graph db = create_map_graph_on MAP_NODES MAP_EDGES db"

subsection \<open>Dijkstra's algorithm (networkx: \_dijkstra\_multisource, one source, a target)\<close>

text \<open>
  The fringe is a \<^verbatim>\<open>heapq\<close> of triples (distance, count, node). The count is a fresh
  number for every push, so no two entries agree on (distance, count) and
  \<^verbatim>\<open>heappop\<close> returns the one entry that is least in that pair; the model keeps the
  entries in a list and takes that entry out.
\<close>

type_synonym entry = "int \<times> nat \<times> string"

fun entry_le :: "entry \<Rightarrow> entry \<Rightarrow> bool" where
  "entry_le (d1, c1, _) (d2, c2, _) = (d1 < d2 \<or> (d1 = d2 \<and> c1 \<le> c2))"

fun heap_min :: "entry \<Rightarrow> entry list \<Rightarrow> entry" where
  "heap_min x [] = x"
| "heap_min x (y # ys) = heap_min (if entry_le x y then x else y) ys"

fun heappop :: "entry list \<Rightarrow> exn + entry \<times> entry list" where
  "heappop [] = Inl IndexError"
| "heappop (x # xs) = (let m = heap_min x xs in Inr (m, remove1 m (x # xs)))"

record dstate =
  st_seen :: "string \<rightharpoonup> int"
  st_fringe :: "entry list"
  st_c :: nat
  st_paths :: "string \<rightharpoonup> string list"

text \<open>
  The body of \<^verbatim>\<open>for u, e in G_succ[v].items()\<close>; the dict \<^verbatim>\<open>dist\<close> (here \<open>dists\<close>) is only read in it. The
  weight function is \<^verbatim>\<open>data.get('weight', 1)\<close>, the stored weight.
\<close>

fun relax_neighbors :: "(string \<rightharpoonup> int) \<Rightarrow> string \<Rightarrow> (string \<times> int) list \<Rightarrow> dstate \<Rightarrow> exn + dstate" where
  "relax_neighbors dists v [] st = Inr st"
| "relax_neighbors dists v ((u, cost) # rest) st =
     (case dists v of None \<Rightarrow> Inl KeyError
      | Some dv \<Rightarrow>
        (let vu_dist = dv + cost in
         (case dists u of
            Some u_dist \<Rightarrow>
              if vu_dist < u_dist then Inl ValueError else relax_neighbors dists v rest st
          | None \<Rightarrow>
              if (case st_seen st u of None \<Rightarrow> True | Some su \<Rightarrow> vu_dist < su) then
                (case st_paths st v of None \<Rightarrow> Inl KeyError
                 | Some pv \<Rightarrow>
                     relax_neighbors dists v rest
                       (st\<lparr>st_seen := (st_seen st)(u \<mapsto> vu_dist),
                           st_fringe := st_fringe st @ [(vu_dist, st_c st, u)],
                           st_c := st_c st + 1,
                           st_paths := (st_paths st)(u \<mapsto> pv @ [u])\<rparr>))
              else relax_neighbors dists v rest st)))"

lemma heap_min_mem: "heap_min x xs \<in> set (x # xs)"
  by (induction xs arbitrary: x) auto

lemma heappop_length: "heappop fr = Inr (m, fr') \<Longrightarrow> length fr' < length fr"
proof (cases fr)
  case Nil
  then show "heappop fr = Inr (m, fr') \<Longrightarrow> length fr' < length fr" by simp
next
  case (Cons x xs)
  assume "heappop fr = Inr (m, fr')"
  with Cons have m: "m = heap_min x xs" and fr': "fr' = remove1 m (x # xs)"
    by (auto simp: Let_def)
  from m have "m \<in> set (x # xs)" using heap_min_mem by simp
  then have "length (remove1 m (x # xs)) = length (x # xs) - 1"
    by (simp only: length_remove1 if_True)
  with fr' Cons show "length fr' < length fr" by simp
qed

text \<open>
  The \<^verbatim>\<open>while fringe\<close> loop. It returns the final \<^verbatim>\<open>dist\<close> (here \<open>dists\<close>) and the state (with
  \<open>paths\<close>). \<^verbatim>\<open>G_succ[v]\<close> raises \<^verbatim>\<open>KeyError\<close> for a node without adjacency.
\<close>

function dijkstra_loop :: "(string \<times> (string \<times> int) list) list \<Rightarrow> string \<Rightarrow> (string \<rightharpoonup> int) \<Rightarrow> dstate \<Rightarrow> exn + (string \<rightharpoonup> int) \<times> dstate" where
  "dijkstra_loop G_succ target dists st =
     (case heappop (st_fringe st) of
        Inl _ \<Rightarrow> Inr (dists, st)
      | Inr ((d, _, v), fr) \<Rightarrow>
          if dists v \<noteq> None then dijkstra_loop G_succ target dists (st\<lparr>st_fringe := fr\<rparr>)
          else if v = target then Inr (dists(v \<mapsto> d), st\<lparr>st_fringe := fr\<rparr>)
          else
            (case map_of G_succ v of None \<Rightarrow> Inl KeyError
             | Some nbrs \<Rightarrow>
               (case relax_neighbors (dists(v \<mapsto> d)) v nbrs (st\<lparr>st_fringe := fr\<rparr>) of
                  Inl e \<Rightarrow> Inl e
                | Inr st' \<Rightarrow> dijkstra_loop G_succ target (dists(v \<mapsto> d)) st')))"
  by pat_completeness auto

termination
proof (relation "measures [\<lambda>(G_succ, target, dists, st). card (fst ` set G_succ - dom dists),
                           \<lambda>(G_succ, target, dists, st). length (st_fringe st)]")
  show "wf (measures [\<lambda>(G_succ, target, dists, st). card (fst ` set G_succ - dom dists),
                      \<lambda>(G_succ, target, dists, st). length (st_fringe st)])"
    by simp
next
  fix G_succ :: "(string \<times> (string \<times> int) list) list" and target :: string
    and dists :: "string \<rightharpoonup> int" and st :: dstate and x2 x y x2a xa ya fr
  assume "heappop (st_fringe st) = Inr x2" "(x, fr) = x2"
  then have "length fr < length (st_fringe st)"
    using heappop_length [of "st_fringe st" x fr] by simp
  then show "((G_succ, target, dists, st\<lparr>st_fringe := fr\<rparr>), G_succ, target, dists, st)
      \<in> measures [\<lambda>(G_succ, target, dists, st). card (fst ` set G_succ - dom dists),
                   \<lambda>(G_succ, target, dists, st). length (st_fringe st)]"
    by simp
next
  fix G_succ :: "(string \<times> (string \<times> int) list) list" and target :: string
    and dists :: "string \<rightharpoonup> int" and st :: dstate
    and x2 x fr xa y xb v x2a x2b and d :: int
  assume nd: "\<not> dists v \<noteq> None" and adj: "map_of G_succ v = Some x2a"
  from adj have "v \<in> fst ` set G_succ"
    by (metis map_of_SomeD fst_conv image_eqI)
  with nd have "fst ` set G_succ - dom (dists(v \<mapsto> d)) \<subset> fst ` set G_succ - dom dists"
    by auto
  then have "card (fst ` set G_succ - dom (dists(v \<mapsto> d))) < card (fst ` set G_succ - dom dists)"
    by (intro psubset_card_mono) auto
  then show "((G_succ, target, dists(v \<mapsto> d), x2b), G_succ, target, dists, st)
      \<in> measures [\<lambda>(G_succ, target, dists, st). card (fst ` set G_succ - dom dists),
                   \<lambda>(G_succ, target, dists, st). length (st_fringe st)]"
    by simp
qed

text \<open>
  \<^verbatim>\<open>dijkstra_path\<close>, through \<^verbatim>\<open>single_source_dijkstra\<close> and \<^verbatim>\<open>multi_source_dijkstra\<close>
  with the one source: the source must be a node of the graph, a target equal to the
  source gives the one-node path at once, and a target that the search never reached
  (\<^verbatim>\<open>KeyError\<close> on \<^verbatim>\<open>dist[target]\<close> or \<^verbatim>\<open>paths[target]\<close>) raises \<^verbatim>\<open>NetworkXNoPath\<close>.
\<close>

definition init_dstate :: "string \<Rightarrow> dstate" where
  "init_dstate source =
     \<lparr>st_seen = [source \<mapsto> 0], st_fringe = [(0, 0, source)], st_c = 1,
      st_paths = [source \<mapsto> [source]]\<rparr>"

definition dijkstra_path :: "Graph \<Rightarrow> string \<Rightarrow> string \<Rightarrow> exn + string list" where
  "dijkstra_path G source target =
     (if map_of (node_attr G) source = None then Inl NodeNotFound
      else if target = source then Inr [target]
      else
        (case dijkstra_loop (adj G) target Map.empty (init_dstate source) of
           Inl e \<Rightarrow> Inl e
         | Inr (dists, st) \<Rightarrow>
             (case dists target of None \<Rightarrow> Inl NetworkXNoPath
              | Some d \<Rightarrow>
                (case st_paths st target of None \<Rightarrow> Inl NetworkXNoPath
                 | Some p \<Rightarrow> Inr p))))"

subsection \<open>find\_safest\_route (services/navigation.py)\<close>

record route =
  path_nodes :: "string list"
  path_coordinates :: "coords list"

fun lookup_all :: "(string \<times> coords) list \<Rightarrow> string list \<Rightarrow> exn + coords list" where
  \<comment> \<open>\<^verbatim>\<open>[MAP_NODES[node] for node in path_nodes]\<close>\<close>
  "lookup_all nodes [] = Inr []"
| "lookup_all nodes (n # ns) =
     (case map_of nodes n of None \<Rightarrow> Inl KeyError
      | Some c \<Rightarrow>
        (case lookup_all nodes ns of Inl e \<Rightarrow> Inl e | Inr cs \<Rightarrow> Inr (c # cs)))"

text \<open>
  The result is \<open>Inr None\<close> for Python's \<^verbatim>\<open>None\<close>, \<open>Inr (Some r)\<close> for the dict, and
  \<open>Inl e\<close> for an exception that leaves the function: the \<^verbatim>\<open>try\<close> catches
  \<^verbatim>\<open>nx.NetworkXNoPath\<close> only, and the graph is built outside it.
\<close>

definition find_safest_route_on :: "(string \<times> coords) list \<Rightarrow> (string \<times> string) list \<Rightarrow> string \<Rightarrow> string \<Rightarrow> Session \<Rightarrow> exn + route option" where
  "find_safest_route_on nodes edges start_node end_node db =
     (if map_of nodes start_node = None \<or> map_of nodes end_node = None then Inr None
      else
        (case create_map_graph_on nodes edges db of
           Inl e \<Rightarrow> Inl e
         | Inr graph \<Rightarrow>
             (case dijkstra_path graph start_node end_node of
                Inl e \<Rightarrow> if e = NetworkXNoPath then Inr None else Inl e
              | Inr pn \<Rightarrow>
                  (case lookup_all nodes pn of
                     Inl e \<Rightarrow> Inl e
                   | Inr pc \<Rightarrow> Inr (Some \<lparr>path_nodes = pn, path_coordinates = pc\<rparr>)))))"

definition find_safest_route :: "string \<Rightarrow> string \<Rightarrow> Session \<Rightarrow> exn + route option" where
  "find_safest_route start_node end_node db =
     find_safest_route_on MAP_NODES MAP_EDGES start_node end_node db"

subsection \<open>The route handler (api/routes.py)\<close>

record RouteRequest =
  start_node :: string
  end_node :: string




section \<open>Properties\<close>

subsection \<open>Vocabulary of the statements\<close>

text \<open>
  The definitions of this subsection are not program code: they name what the
  statements speak about.
  \<^item> \<open>in_risk_zone\<close> is the classification of a point by the risk index;
    \<open>edge_weight\<close> is the expression \<^verbatim>\<open>get_edge_risk_weight(MAP_NODES[u], MAP_NODES[v], db)\<close>
    of \<^verbatim>\<open>create_map_graph\<close>; \<open>edge_midpoint_in_zone\<close> is the answer of the index at the
    midpoint of the street between two named nodes; \<open>index_answers\<close> says that the index
    answers at the midpoint of every declared street.
  \<^item> \<open>weighted_map\<close> is the graph of the fixed map with the five weights left open;
    \<open>street\<close> is a declared edge in either orientation; \<open>connects\<close> is a path of
    streets between two nodes; \<open>path_weight\<close> adds the edge weights along a node
    sequence; \<open>exists_edge\<close> says that some consecutive pair satisfies a predicate.
  \<^item> \<open>walk G s p w\<close>: \<open>p\<close> starts at \<open>s\<close>, every hop is an entry of the adjacency \<open>G\<close>,
    and the weights of the hops add up to \<open>w\<close>. \<open>dijkstra_inv\<close>, \<open>closed\<close> and
    \<open>fringe_ok\<close> are the loop invariant of the search; \<open>keys_closed\<close> says that every
    neighbour has an adjacency entry of its own.
  \<^item> \<open>graph_ok E G\<close> is the invariant of the graph construction: every node has an
    adjacency entry, and every adjacency entry leads to a node with an entry, carries a
    weight that is not negative and stems from a pair of \<open>E\<close> in one of the two
    orientations. \<open>connects_on edges s t p\<close>: \<open>p\<close> is a sequence of nodes from \<open>s\<close> to \<open>t\<close>
    each consecutive pair of which is a pair of \<open>edges\<close> in one of the two orientations.
  \<^item> \<open>box_within\<close> is a stand-in for \<^verbatim>\<open>ST_DWithin\<close> on axis-parallel rectangles, and
    the sessions \<open>db_\<dots>\<close> and the map \<open>MAP_NODES_isolated\<close> are the concrete inputs of
    the examples.
\<close>

definition in_risk_zone :: "Session \<Rightarrow> coords \<Rightarrow> bool" where
  "in_risk_zone db p = (\<exists>z \<in> set (risk_zones db). ST_DWithin db (zone z) p 0)"

definition edge_weight :: "Session \<Rightarrow> string \<Rightarrow> string \<Rightarrow> exn + int" where
  "edge_weight db u v =
     (case map_of MAP_NODES u of None \<Rightarrow> Inl KeyError
      | Some cu \<Rightarrow>
        (case map_of MAP_NODES v of None \<Rightarrow> Inl KeyError
         | Some cv \<Rightarrow> get_edge_risk_weight cu cv db))"

definition edge_midpoint_in_zone :: "Session \<Rightarrow> string \<Rightarrow> string \<Rightarrow> exn + bool" where
  "edge_midpoint_in_zone db u v =
     (case map_of MAP_NODES u of None \<Rightarrow> Inl KeyError
      | Some cu \<Rightarrow>
        (case map_of MAP_NODES v of None \<Rightarrow> Inl KeyError
         | Some cv \<Rightarrow>
           (case query_first db (midpoint cu cv) of Inl e \<Rightarrow> Inl e
            | Inr r \<Rightarrow> Inr (r \<noteq> None))))"

definition weighted_map :: "int \<Rightarrow> int \<Rightarrow> int \<Rightarrow> int \<Rightarrow> int \<Rightarrow> Graph" where
  "weighted_map wab wbc wbd wce wde =
     \<lparr>node_attr = map (\<lambda>(n, c). (n, Some c)) MAP_NODES,
      adj =
        [(''A_Home'', [(''B_Intersection'', wab)]),
         (''B_Intersection'', [(''A_Home'', wab), (''C_Risky_Area'', wbc), (''D_Intersection'', wbd)]),
         (''C_Risky_Area'', [(''B_Intersection'', wbc), (''E_Work'', wce)]),
         (''D_Intersection'', [(''B_Intersection'', wbd), (''E_Work'', wde)]),
         (''E_Work'', [(''C_Risky_Area'', wce), (''D_Intersection'', wde)])]\<rparr>"

fun path_weight :: "Session \<Rightarrow> string list \<Rightarrow> exn + int" where
  "path_weight db (x # y # ys) =
     (case edge_weight db x y of Inl e \<Rightarrow> Inl e
      | Inr w \<Rightarrow> (case path_weight db (y # ys) of Inl e \<Rightarrow> Inl e | Inr t \<Rightarrow> Inr (w + t)))"
| "path_weight db _ = Inr 0"

definition index_answers :: "Session \<Rightarrow> bool" where
  "index_answers db = list_all (\<lambda>(u, v). \<not> isl (edge_midpoint_in_zone db u v)) MAP_EDGES"

definition box_within :: "coords list \<Rightarrow> coords \<Rightarrow> real \<Rightarrow> bool" where
  "box_within poly p d =
     (\<exists>a \<in> set poly. \<exists>b \<in> set poly.
        fst a - d \<le> fst p \<and> fst p \<le> fst b + d \<and> snd a - d \<le> snd p \<and> snd p \<le> snd b + d)"

definition db_east_village :: Session where
  "db_east_village =
     \<lparr>risk_zones =
        [\<lparr>zone_id = 1, zone_name = ''East Village'',
          zone = [(-73.992, 40.727), (-73.985, 40.727), (-73.985, 40.743),
                  (-73.992, 40.743), (-73.992, 40.727)],
          risk_score = 9\<rparr>],
      ST_DWithin = box_within, query_fails = (\<lambda>p. False)\<rparr>"

definition db_no_zones :: Session where
  "db_no_zones = \<lparr>risk_zones = [], ST_DWithin = box_within, query_fails = (\<lambda>p. False)\<rparr>"

definition db_down :: Session where
  "db_down = \<lparr>risk_zones = [], ST_DWithin = box_within, query_fails = (\<lambda>p. True)\<rparr>"

inductive walk :: "(string \<times> (string \<times> int) list) list \<Rightarrow> string \<Rightarrow> string list \<Rightarrow> int \<Rightarrow> bool"
  for G :: "(string \<times> (string \<times> int) list) list" and s :: string where
  walk_start: "walk G s [s] 0"
| walk_step: "walk G s p w \<Longrightarrow> map_of G (last p) = Some nbrs \<Longrightarrow> (u, c) \<in> set nbrs \<Longrightarrow>
     walk G s (p @ [u]) (w + c)"

definition nonneg_weights :: "(string \<times> (string \<times> int) list) list \<Rightarrow> bool" where
  "nonneg_weights G \<longleftrightarrow>
     (\<forall>v nbrs u c. map_of G v = Some nbrs \<longrightarrow> (u, c) \<in> set nbrs \<longrightarrow> 0 \<le> c)"

definition dijkstra_inv :: "(string \<times> (string \<times> int) list) list \<Rightarrow> string \<Rightarrow> (string \<rightharpoonup> int) \<Rightarrow> dstate \<Rightarrow> bool" where
  "dijkstra_inv G s D st \<longleftrightarrow>
     (\<forall>x d. D x = Some d \<longrightarrow> st_seen st x = Some d) \<and>
     (\<forall>x d. st_seen st x = Some d \<longrightarrow>
        (\<exists>p. st_paths st x = Some p \<and> walk G s p d \<and> last p = x)) \<and>
     (\<forall>x d. st_seen st x = Some d \<longrightarrow> D x = None \<longrightarrow> (\<exists>c. (d, c, x) \<in> set (st_fringe st))) \<and>
     (\<forall>d c x. (d, c, x) \<in> set (st_fringe st) \<longrightarrow> (\<exists>k. st_seen st x = Some k \<and> k \<le> d)) \<and>
     (\<exists>k. st_seen st s = Some k \<and> k \<le> 0)"

definition closed :: "(string \<times> (string \<times> int) list) list \<Rightarrow> (string \<rightharpoonup> int) \<Rightarrow> dstate \<Rightarrow> bool" where
  "closed G D st \<longleftrightarrow>
     (\<forall>x d nbrs u c. D x = Some d \<longrightarrow> map_of G x = Some nbrs \<longrightarrow> (u, c) \<in> set nbrs \<longrightarrow>
        (\<exists>k. st_seen st u = Some k \<and> k \<le> d + c))"

definition keys_closed :: "(string \<times> (string \<times> int) list) list \<Rightarrow> bool" where
  "keys_closed G \<longleftrightarrow>
     (\<forall>v nbrs u c. map_of G v = Some nbrs \<longrightarrow> (u, c) \<in> set nbrs \<longrightarrow> map_of G u \<noteq> None)"

definition fringe_ok :: "(string \<times> (string \<times> int) list) list \<Rightarrow> (string \<rightharpoonup> int) \<Rightarrow> dstate \<Rightarrow> bool" where
  "fringe_ok G D st \<longleftrightarrow>
     (\<forall>d c y. (d, c, y) \<in> set (st_fringe st) \<longrightarrow>
        map_of G y \<noteq> None \<and> (\<forall>x dx. D x = Some dx \<longrightarrow> dx \<le> d))"



definition street :: "string \<Rightarrow> string \<Rightarrow> bool" where
  "street a b \<longleftrightarrow> (a, b) \<in> set MAP_EDGES \<or> (b, a) \<in> set MAP_EDGES"

definition connects :: "string \<Rightarrow> string \<Rightarrow> string list \<Rightarrow> bool" where
  "connects s t p \<longleftrightarrow> p \<noteq> [] \<and> hd p = s \<and> last p = t \<and> successively street p"

fun exists_edge :: "('a \<Rightarrow> 'a \<Rightarrow> bool) \<Rightarrow> 'a list \<Rightarrow> bool" where
  "exists_edge P (x # y # xs) = (P x y \<or> exists_edge P (y # xs))"
| "exists_edge P _ = False"


subsection \<open>The fixed map and the lookups\<close>

lemma midpoint_commute: "midpoint c1 c2 = midpoint c2 c1"
  by (simp add: midpoint_def add.commute)

lemma get_edge_risk_weight_midpoint:
  "get_edge_risk_weight c1 c2 db =
     (case query_first db (midpoint c1 c2) of Inl e \<Rightarrow> Inl e
      | Inr r \<Rightarrow> Inr (if r \<noteq> None then 100 else 1))"
  by (simp add: get_edge_risk_weight_def midpoint_def Let_def split: sum.splits option.splits)

lemma query_first_in_zone:
  "query_first db p = Inr r \<Longrightarrow> (r \<noteq> None) = in_risk_zone db p"
proof -
  assume "query_first db p = Inr r"
  then have "r = find (\<lambda>z. ST_DWithin db (zone z) p 0) (risk_zones db)"
    by (simp add: query_first_def split: if_splits)
  then show ?thesis
    by (auto simp: in_risk_zone_def find_None_iff)
qed

lemma create_map_graph_unfold:
  "create_map_graph db =
     (case edge_weight db ''A_Home'' ''B_Intersection'' of Inl e \<Rightarrow> Inl e | Inr wab \<Rightarrow>
     (case edge_weight db ''B_Intersection'' ''C_Risky_Area'' of Inl e \<Rightarrow> Inl e | Inr wbc \<Rightarrow>
     (case edge_weight db ''B_Intersection'' ''D_Intersection'' of Inl e \<Rightarrow> Inl e | Inr wbd \<Rightarrow>
     (case edge_weight db ''C_Risky_Area'' ''E_Work'' of Inl e \<Rightarrow> Inl e | Inr wce \<Rightarrow>
     (case edge_weight db ''D_Intersection'' ''E_Work'' of Inl e \<Rightarrow> Inl e | Inr wde \<Rightarrow>
        Inr (weighted_map wab wbc wbd wce wde))))))"
  by (simp add: create_map_graph_def create_map_graph_on_def MAP_NODES_def MAP_EDGES_def
      edge_weight_def empty_graph_def add_node_def add_edge_def ensure_node_def Let_def
      weighted_map_def split: sum.splits)

lemma edge_weight_lookup:
  "edge_weight db u v =
     (case edge_midpoint_in_zone db u v of Inl e \<Rightarrow> Inl e
      | Inr b \<Rightarrow> Inr (if b then 100 else 1))"
  by (simp add: edge_weight_def edge_midpoint_in_zone_def get_edge_risk_weight_midpoint
      split: option.splits sum.splits)

lemma edge_lookup_error:
  "edge_midpoint_in_zone db u v = Inl e \<Longrightarrow> map_of MAP_NODES u \<noteq> None \<Longrightarrow>
   map_of MAP_NODES v \<noteq> None \<Longrightarrow> e = OperationalError"
  by (auto simp: edge_midpoint_in_zone_def query_first_def split: option.splits sum.splits if_splits)

lemma MAP_EDGES_cases:
  "(u, v) \<in> set MAP_EDGES \<Longrightarrow>
     (u = ''A_Home'' \<and> v = ''B_Intersection'') \<or>
     (u = ''B_Intersection'' \<and> v = ''C_Risky_Area'') \<or>
     (u = ''B_Intersection'' \<and> v = ''D_Intersection'') \<or>
     (u = ''C_Risky_Area'' \<and> v = ''E_Work'') \<or>
     (u = ''D_Intersection'' \<and> v = ''E_Work'')"
  by (simp add: MAP_EDGES_def)

lemma MAP_NODES_keys:
  "map fst MAP_NODES =
     [''A_Home'', ''B_Intersection'', ''C_Risky_Area'', ''D_Intersection'', ''E_Work'']"
  by (simp add: MAP_NODES_def)

lemma MAP_NODES_lookup:
  "map_of MAP_NODES ''A_Home'' = Some (-74.0060, 40.7128)"
  "map_of MAP_NODES ''B_Intersection'' = Some (-73.9960, 40.7228)"
  "map_of MAP_NODES ''C_Risky_Area'' = Some (-73.9860, 40.7328)"
  "map_of MAP_NODES ''D_Intersection'' = Some (-73.9950, 40.7428)"
  "map_of MAP_NODES ''E_Work'' = Some (-73.9850, 40.7528)"
  by (simp_all add: MAP_NODES_def)

lemma MAP_NODES_None: "map_of MAP_NODES n = None \<longleftrightarrow> n \<notin> set (map fst MAP_NODES)"
  by (simp add: map_of_eq_None_iff)

lemma MAP_EDGES_nodes:
  "(u, v) \<in> set MAP_EDGES \<Longrightarrow> map_of MAP_NODES u \<noteq> None \<and> map_of MAP_NODES v \<noteq> None"
  unfolding MAP_NODES_None MAP_NODES_keys
  using MAP_EDGES_cases [of u v] by auto

lemma index_answers_edge:
  "index_answers db \<Longrightarrow> (u, v) \<in> set MAP_EDGES \<Longrightarrow> \<exists>b. edge_midpoint_in_zone db u v = Inr b"
  unfolding index_answers_def list_all_iff
  by (cases "edge_midpoint_in_zone db u v") auto

lemma create_map_graph_answers:
  assumes "index_answers db"
  shows "\<exists>wab wbc wbd wce wde.
           create_map_graph db = Inr (weighted_map wab wbc wbd wce wde)
           \<and> edge_weight db ''A_Home'' ''B_Intersection'' = Inr wab
           \<and> edge_weight db ''B_Intersection'' ''C_Risky_Area'' = Inr wbc
           \<and> edge_weight db ''B_Intersection'' ''D_Intersection'' = Inr wbd
           \<and> edge_weight db ''C_Risky_Area'' ''E_Work'' = Inr wce
           \<and> edge_weight db ''D_Intersection'' ''E_Work'' = Inr wde"
proof -
  obtain b1 where b1: "edge_midpoint_in_zone db ''A_Home'' ''B_Intersection'' = Inr b1"
    using index_answers_edge [OF assms, of "''A_Home''" "''B_Intersection''"]
    by (auto simp: MAP_EDGES_def)
  obtain b2 where b2: "edge_midpoint_in_zone db ''B_Intersection'' ''C_Risky_Area'' = Inr b2"
    using index_answers_edge [OF assms, of "''B_Intersection''" "''C_Risky_Area''"]
    by (auto simp: MAP_EDGES_def)
  obtain b3 where b3: "edge_midpoint_in_zone db ''B_Intersection'' ''D_Intersection'' = Inr b3"
    using index_answers_edge [OF assms, of "''B_Intersection''" "''D_Intersection''"]
    by (auto simp: MAP_EDGES_def)
  obtain b4 where b4: "edge_midpoint_in_zone db ''C_Risky_Area'' ''E_Work'' = Inr b4"
    using index_answers_edge [OF assms, of "''C_Risky_Area''" "''E_Work''"]
    by (auto simp: MAP_EDGES_def)
  obtain b5 where b5: "edge_midpoint_in_zone db ''D_Intersection'' ''E_Work'' = Inr b5"
    using index_answers_edge [OF assms, of "''D_Intersection''" "''E_Work''"]
    by (auto simp: MAP_EDGES_def)
  show ?thesis
    by (simp only: create_map_graph_unfold edge_weight_lookup b1 b2 b3 b4 b5 sum.case) blast
qed

lemma edge_weight_error:
  assumes "(u, v) \<in> set MAP_EDGES" and "edge_weight db u v = Inl e"
  shows "e = OperationalError"
proof -
  from assms(2) have "edge_midpoint_in_zone db u v = Inl e"
    by (simp add: edge_weight_lookup split: sum.splits)
  then show ?thesis
    using edge_lookup_error MAP_EDGES_nodes [OF assms(1)] by blast
qed

lemma create_map_graph_fails:
  assumes "(u, v) \<in> set MAP_EDGES" and "isl (edge_midpoint_in_zone db u v)"
  shows "create_map_graph db = Inl OperationalError"
proof -
  have mem: "(''A_Home'', ''B_Intersection'') \<in> set MAP_EDGES"
    "(''B_Intersection'', ''C_Risky_Area'') \<in> set MAP_EDGES"
    "(''B_Intersection'', ''D_Intersection'') \<in> set MAP_EDGES"
    "(''C_Risky_Area'', ''E_Work'') \<in> set MAP_EDGES"
    "(''D_Intersection'', ''E_Work'') \<in> set MAP_EDGES"
    by (simp_all add: MAP_EDGES_def)
  from assms(2) obtain e where e: "edge_weight db u v = Inl e"
    by (auto simp: edge_weight_lookup isl_def)
  show ?thesis
  proof (cases "edge_weight db ''A_Home'' ''B_Intersection''")
    case (Inl a)
    with edge_weight_error [OF mem(1)] show ?thesis
      by (simp add: create_map_graph_unfold)
  next
    case r1: (Inr w1)
    show ?thesis
    proof (cases "edge_weight db ''B_Intersection'' ''C_Risky_Area''")
      case (Inl a)
      with edge_weight_error [OF mem(2)] r1 show ?thesis
        by (simp add: create_map_graph_unfold)
    next
      case r2: (Inr w2)
      show ?thesis
      proof (cases "edge_weight db ''B_Intersection'' ''D_Intersection''")
        case (Inl a)
        with edge_weight_error [OF mem(3)] r1 r2 show ?thesis
          by (simp add: create_map_graph_unfold)
      next
        case r3: (Inr w3)
        show ?thesis
        proof (cases "edge_weight db ''C_Risky_Area'' ''E_Work''")
          case (Inl a)
          with edge_weight_error [OF mem(4)] r1 r2 r3 show ?thesis
            by (simp add: create_map_graph_unfold)
        next
          case r4: (Inr w4)
          show ?thesis
          proof (cases "edge_weight db ''D_Intersection'' ''E_Work''")
            case (Inl a)
            with edge_weight_error [OF mem(5)] r1 r2 r3 r4 show ?thesis
              by (simp add: create_map_graph_unfold)
          next
            case r5: (Inr w5)
            from MAP_EDGES_cases [OF assms(1)] e r1 r2 r3 r4 r5 show ?thesis
              by auto
          qed
        qed
      qed
    qed
  qed
qed

lemma find_safest_route_unfold:
  "find_safest_route s t db =
     (if map_of MAP_NODES s = None \<or> map_of MAP_NODES t = None then Inr None
      else
        (case create_map_graph db of
           Inl e \<Rightarrow> Inl e
         | Inr graph \<Rightarrow>
             (case dijkstra_path graph s t of
                Inl e \<Rightarrow> if e = NetworkXNoPath then Inr None else Inl e
              | Inr pn \<Rightarrow>
                  (case lookup_all MAP_NODES pn of
                     Inl e \<Rightarrow> Inl e
                   | Inr pc \<Rightarrow> Inr (Some \<lparr>path_nodes = pn, path_coordinates = pc\<rparr>)))))"
  by (simp add: find_safest_route_def find_safest_route_on_def create_map_graph_def)

lemma dijkstra_scenario_A:
  "dijkstra_path (weighted_map 1 100 1 100 1) ''A_Home'' ''E_Work''
     = Inr [''A_Home'', ''B_Intersection'', ''D_Intersection'', ''E_Work'']"
  by code_simp

lemma east_village_lookups:
  "edge_midpoint_in_zone db_east_village ''B_Intersection'' ''C_Risky_Area'' = Inr True"
  "edge_midpoint_in_zone db_east_village ''C_Risky_Area'' ''E_Work'' = Inr True"
  "edge_midpoint_in_zone db_east_village ''A_Home'' ''B_Intersection'' = Inr False"
  "edge_midpoint_in_zone db_east_village ''B_Intersection'' ''D_Intersection'' = Inr False"
  "edge_midpoint_in_zone db_east_village ''D_Intersection'' ''E_Work'' = Inr False"
  by (simp_all add: edge_midpoint_in_zone_def MAP_NODES_lookup midpoint_def query_first_def
      db_east_village_def box_within_def)


subsection \<open>The search returns a walk of least weight\<close>

text \<open>
  For every graph whose weights are not negative: when \<open>dijkstra_path\<close> returns a
  path, the path is a walk from the source to the target, and no walk from the source
  to the target weighs less.
\<close>

lemma walk_nonempty: "walk G s p w \<Longrightarrow> p \<noteq> [] \<and> hd p = s"
  by (induction rule: walk.induct) auto

lemma walk_nonneg: "walk G s p w \<Longrightarrow> nonneg_weights G \<Longrightarrow> 0 \<le> w"
proof (induction rule: walk.induct)
  case walk_start
  show ?case by simp
next
  case (walk_step p w nbrs u c)
  then have "0 \<le> c" unfolding nonneg_weights_def by blast
  with walk_step show ?case by simp
qed

lemma heap_min_fst_le: "e \<in> set (x # xs) \<Longrightarrow> fst (heap_min x xs) \<le> fst e"
proof (induction xs arbitrary: x e)
  case Nil
  then show ?case by simp
next
  case (Cons y ys)
  let ?m = "if entry_le x y then x else y"
  have mx: "fst ?m \<le> fst x" and my: "fst ?m \<le> fst y"
    by (cases x; cases y; auto)+
  have le_m: "fst (heap_min ?m ys) \<le> fst ?m"
    using Cons.IH [where x = ?m and e = ?m] by simp
  from Cons.prems consider "e = x" | "e = y" | "e \<in> set ys" by auto
  then show ?case
  proof cases
    case 1
    with le_m mx show ?thesis by simp
  next
    case 2
    with le_m my show ?thesis by simp
  next
    case 3
    then show ?thesis using Cons.IH [where x = ?m and e = e] by simp
  qed
qed

lemma heappop_Inr:
  assumes "heappop fr = Inr (m, fr')"
  shows "m \<in> set fr" and "\<And>e. e \<in> set fr \<Longrightarrow> fst m \<le> fst e"
    and "set fr' \<subseteq> set fr" and "\<And>e. e \<in> set fr \<Longrightarrow> e \<noteq> m \<Longrightarrow> e \<in> set fr'"
proof -
  from assms obtain x xs where fr: "fr = x # xs" and m: "m = heap_min x xs"
    and fr': "fr' = remove1 m (x # xs)"
    by (cases fr) (auto simp: Let_def)
  show "m \<in> set fr" using heap_min_mem [of x xs] fr m by simp
  show "\<And>e. e \<in> set fr \<Longrightarrow> fst m \<le> fst e" using heap_min_fst_le fr m by simp
  show "set fr' \<subseteq> set fr" unfolding fr' fr by (rule set_remove1_subset)
  show "\<And>e. e \<in> set fr \<Longrightarrow> e \<noteq> m \<Longrightarrow> e \<in> set fr'" unfolding fr' fr
    by (metis in_set_remove1)
qed

lemma frontier:
  assumes inv: "dijkstra_inv G s D st" and cl: "closed G D st" and nn: "nonneg_weights G"
    and w: "walk G s p w"
  shows "(\<exists>d. D (last p) = Some d \<and> d \<le> w) \<or>
         (\<exists>y k. D y = None \<and> st_seen st y = Some k \<and> k \<le> w)"
  using w
proof (induction rule: walk.induct)
  case walk_start
  from inv obtain k where k: "st_seen st s = Some k" "k \<le> 0"
    by (auto simp: dijkstra_inv_def)
  show ?case
  proof (cases "D s")
    case None
    with k show ?thesis by auto
  next
    case (Some d)
    with inv have "st_seen st s = Some d" by (auto simp: dijkstra_inv_def)
    with k Some show ?thesis by auto
  qed
next
  case (walk_step p w nbrs u c)
  from nn walk_step.hyps(2,3) have c0: "0 \<le> c"
    by (auto simp: nonneg_weights_def)
  from walk_step.IH show ?case
  proof
    assume "\<exists>y k. D y = None \<and> st_seen st y = Some k \<and> k \<le> w"
    with c0 show ?thesis by fastforce
  next
    assume "\<exists>d. D (last p) = Some d \<and> d \<le> w"
    then obtain d where d: "D (last p) = Some d" "d \<le> w" by blast
    with cl walk_step.hyps(2,3) obtain k where k: "st_seen st u = Some k" "k \<le> d + c"
      unfolding closed_def by blast
    show ?thesis
    proof (cases "D u")
      case None
      with k d show ?thesis by fastforce
    next
      case (Some du)
      with inv have "st_seen st u = Some du" by (auto simp: dijkstra_inv_def)
      with k d Some show ?thesis by auto
    qed
  qed
qed

lemma pop_optimal:
  assumes inv: "dijkstra_inv G s D st" and cl: "closed G D st" and nn: "nonneg_weights G"
    and hp: "heappop (st_fringe st) = Inr ((d0, c0, v), fr)" and nv: "D v = None"
  shows "st_seen st v = Some d0" and "\<And>p w. walk G s p w \<Longrightarrow> last p = v \<Longrightarrow> d0 \<le> w"
proof -
  note pop = heappop_Inr [OF hp]
  have least: "\<And>d c x. (d, c, x) \<in> set (st_fringe st) \<Longrightarrow> d0 \<le> d"
    using pop(2) by fastforce
  from inv pop(1) obtain k where k: "st_seen st v = Some k" "k \<le> d0"
    unfolding dijkstra_inv_def by blast
  with inv nv obtain c where "(k, c, v) \<in> set (st_fringe st)"
    unfolding dijkstra_inv_def by blast
  with least have "d0 \<le> k" by blast
  with k show seen: "st_seen st v = Some d0" by simp
  fix p w assume "walk G s p w" and "last p = v"
  with frontier [OF inv cl nn] nv
  obtain y k' where y: "D y = None" "st_seen st y = Some k'" "k' \<le> w" by fastforce
  with inv obtain c' where "(k', c', y) \<in> set (st_fringe st)"
    unfolding dijkstra_inv_def by blast
  with least y show "d0 \<le> w" by fastforce
qed

lemma relax_inv:
  assumes "relax_neighbors D v nbrs st = Inr st'"
    and "dijkstra_inv G s D st" and "D v = Some d0"
    and "map_of G v = Some all_nbrs" and "set nbrs \<subseteq> set all_nbrs"
  shows "dijkstra_inv G s D st' \<and>
         (\<forall>x k. st_seen st x = Some k \<longrightarrow> (\<exists>k'. st_seen st' x = Some k' \<and> k' \<le> k)) \<and>
         (\<forall>(u, c) \<in> set nbrs. \<exists>k. st_seen st' u = Some k \<and> k \<le> d0 + c)"
  using assms
proof (induction nbrs arbitrary: st)
  case Nil
  then show ?case by simp
next
  case (Cons e rest)
  obtain u c where e: "e = (u, c)" by (cases e)
  note inv = Cons.prems(2)
  from inv Cons.prems(3) have seen_v: "st_seen st v = Some d0"
    by (auto simp: dijkstra_inv_def)
  with inv obtain pv where pv: "st_paths st v = Some pv" "walk G s pv d0" "last pv = v"
    unfolding dijkstra_inv_def by blast
  from Cons.prems(5) e have uc: "(u, c) \<in> set all_nbrs" and rest: "set rest \<subseteq> set all_nbrs"
    by auto
  show ?case
  proof (cases "D u")
    case (Some ud)
    with Cons.prems(1) e Cons.prems(3) have le: "ud \<le> d0 + c"
      and run: "relax_neighbors D v rest st = Inr st'"
      by (auto simp: Let_def split: if_splits)
    note IH = Cons.IH [OF run inv Cons.prems(3,4) rest]
    from inv Some have "st_seen st u = Some ud" by (auto simp: dijkstra_inv_def)
    with IH obtain k' where "st_seen st' u = Some k'" "k' \<le> ud" by blast
    with le have "\<exists>k. st_seen st' u = Some k \<and> k \<le> d0 + c" by auto
    with IH e show ?thesis by auto
  next
    case None
    show ?thesis
    proof (cases "case st_seen st u of None \<Rightarrow> True | Some su \<Rightarrow> d0 + c < su")
      case False
      then obtain su where su: "st_seen st u = Some su" "su \<le> d0 + c"
        by (auto split: option.splits)
      from Cons.prems(1) e Cons.prems(3) None False
      have run: "relax_neighbors D v rest st = Inr st'"
        by (simp add: Let_def)
      note IH = Cons.IH [OF run inv Cons.prems(3,4) rest]
      from IH su obtain k' where "st_seen st' u = Some k'" "k' \<le> su" by blast
      with su have "\<exists>k. st_seen st' u = Some k \<and> k \<le> d0 + c" by auto
      with IH e show ?thesis by auto
    next
      case True
      define st1 where "st1 = st\<lparr>st_seen := (st_seen st)(u \<mapsto> d0 + c),
                           st_fringe := st_fringe st @ [(d0 + c, st_c st, u)],
                           st_c := st_c st + 1,
                           st_paths := (st_paths st)(u \<mapsto> pv @ [u])\<rparr>"
      from Cons.prems(1) e Cons.prems(3) None True pv(1)
      have run: "relax_neighbors D v rest st1 = Inr st'"
        by (simp add: Let_def st1_def)
      have better: "\<And>su. st_seen st u = Some su \<Longrightarrow> d0 + c < su"
        using True by simp
      have wu: "walk G s (pv @ [u]) (d0 + c)"
        using walk_step [OF pv(2) _ uc] pv(3) Cons.prems(4) by simp
      have i1: "\<forall>x d. D x = Some d \<longrightarrow> st_seen st1 x = Some d"
        using inv None by (auto simp: dijkstra_inv_def st1_def)
      have i2: "\<forall>x d. st_seen st1 x = Some d \<longrightarrow>
                  (\<exists>p. st_paths st1 x = Some p \<and> walk G s p d \<and> last p = x)"
      proof (intro allI impI)
        fix x d assume sx: "st_seen st1 x = Some d"
        show "\<exists>p. st_paths st1 x = Some p \<and> walk G s p d \<and> last p = x"
        proof (cases "x = u")
          case True
          with sx wu show ?thesis by (simp add: st1_def)
        next
          case False
          with sx have "st_seen st x = Some d" by (simp add: st1_def)
          with inv obtain p where "st_paths st x = Some p" "walk G s p d" "last p = x"
            unfolding dijkstra_inv_def by blast
          with False show ?thesis by (simp add: st1_def)
        qed
      qed
      have i3: "\<forall>x d. st_seen st1 x = Some d \<longrightarrow> D x = None \<longrightarrow>
                  (\<exists>cc. (d, cc, x) \<in> set (st_fringe st1))"
      proof (intro allI impI)
        fix x d assume sx: "st_seen st1 x = Some d" and dx: "D x = None"
        show "\<exists>cc. (d, cc, x) \<in> set (st_fringe st1)"
        proof (cases "x = u")
          case True
          with sx show ?thesis by (auto simp: st1_def)
        next
          case False
          with sx have "st_seen st x = Some d" by (simp add: st1_def)
          with inv dx obtain cc where "(d, cc, x) \<in> set (st_fringe st)"
            unfolding dijkstra_inv_def by blast
          then show ?thesis by (auto simp: st1_def)
        qed
      qed
      have i4: "\<forall>d cc x. (d, cc, x) \<in> set (st_fringe st1) \<longrightarrow>
                  (\<exists>k. st_seen st1 x = Some k \<and> k \<le> d)"
      proof (intro allI impI)
        fix d cc x assume mem: "(d, cc, x) \<in> set (st_fringe st1)"
        then consider "(d, cc, x) \<in> set (st_fringe st)" | "d = d0 + c" "x = u"
          by (auto simp: st1_def)
        then show "\<exists>k. st_seen st1 x = Some k \<and> k \<le> d"
        proof cases
          case 1
          with inv obtain k where k: "st_seen st x = Some k" "k \<le> d"
            unfolding dijkstra_inv_def by blast
          show ?thesis
          proof (cases "x = u")
            case True
            with k better [of k] show ?thesis by (simp add: st1_def)
          next
            case False
            with k show ?thesis by (simp add: st1_def)
          qed
        next
          case 2
          then show ?thesis by (simp add: st1_def)
        qed
      qed
      have i5: "\<exists>k. st_seen st1 s = Some k \<and> k \<le> 0"
      proof -
        from inv obtain k where k: "st_seen st s = Some k" "k \<le> 0"
          unfolding dijkstra_inv_def by blast
        show ?thesis
        proof (cases "s = u")
          case True
          with k better [of k] show ?thesis by (simp add: st1_def)
        next
          case False
          with k show ?thesis by (simp add: st1_def)
        qed
      qed
      have inv1: "dijkstra_inv G s D st1"
        unfolding dijkstra_inv_def using i1 i2 i3 i4 i5 by blast
      note IH = Cons.IH [OF run inv1 Cons.prems(3,4) rest]
      have mono1: "\<forall>x k. st_seen st x = Some k \<longrightarrow> (\<exists>k'. st_seen st1 x = Some k' \<and> k' \<le> k)"
      proof (intro allI impI)
        fix x k assume sx: "st_seen st x = Some k"
        show "\<exists>k'. st_seen st1 x = Some k' \<and> k' \<le> k"
        proof (cases "x = u")
          case True
          with sx better [of k] show ?thesis by (simp add: st1_def)
        next
          case False
          with sx show ?thesis by (simp add: st1_def)
        qed
      qed
      have mono: "\<forall>x k. st_seen st x = Some k \<longrightarrow> (\<exists>k'. st_seen st' x = Some k' \<and> k' \<le> k)"
      proof (intro allI impI)
        fix x k assume "st_seen st x = Some k"
        with mono1 obtain k1 where k1: "st_seen st1 x = Some k1" "k1 \<le> k" by blast
        with IH obtain k' where "st_seen st' x = Some k'" "k' \<le> k1" by blast
        with k1 show "\<exists>k'. st_seen st' x = Some k' \<and> k' \<le> k" by auto
      qed
      have "st_seen st1 u = Some (d0 + c)" by (simp add: st1_def)
      with IH have "\<exists>k. st_seen st' u = Some k \<and> k \<le> d0 + c" by blast
      with IH mono e show ?thesis by auto
    qed
  qed
qed

lemma inv_drop_entry:
  assumes inv: "dijkstra_inv G s D st"
    and hp: "heappop (st_fringe st) = Inr ((d0, c0, v), fr)"
    and dv: "D' = D \<or> (D v = None \<and> D' = D(v \<mapsto> d0))"
    and seen: "D v = None \<longrightarrow> st_seen st v = Some d0"
    and known: "D' v \<noteq> None"
  shows "dijkstra_inv G s D' (st\<lparr>st_fringe := fr\<rparr>)"
proof -
  note pop = heappop_Inr [OF hp]
  have i1: "\<forall>x d. D' x = Some d \<longrightarrow> st_seen st x = Some d"
    using inv dv seen by (auto simp: dijkstra_inv_def split: if_splits)
  have i3: "\<forall>x d. st_seen st x = Some d \<longrightarrow> D' x = None \<longrightarrow> (\<exists>c. (d, c, x) \<in> set fr)"
  proof (intro allI impI)
    fix x d assume sx: "st_seen st x = Some d" and dx: "D' x = None"
    from dx known have xv: "x \<noteq> v" by auto
    from dx dv have "D x = None" by (auto split: if_splits)
    with inv sx obtain c where "(d, c, x) \<in> set (st_fringe st)"
      unfolding dijkstra_inv_def by blast
    with pop(4) [of "(d, c, x)"] xv show "\<exists>c. (d, c, x) \<in> set fr" by auto
  qed
  have i4: "\<forall>d c x. (d, c, x) \<in> set fr \<longrightarrow> (\<exists>k. st_seen st x = Some k \<and> k \<le> d)"
    using inv pop(3) unfolding dijkstra_inv_def by blast
  from inv have i2: "\<forall>x d. st_seen st x = Some d \<longrightarrow>
        (\<exists>p. st_paths st x = Some p \<and> walk G s p d \<and> last p = x)"
    and i5: "\<exists>k. st_seen st s = Some k \<and> k \<le> 0"
    unfolding dijkstra_inv_def by blast+
  show ?thesis
    unfolding dijkstra_inv_def using i1 i2 i3 i4 i5 by simp
qed

lemma relax_total:
  assumes "D v = Some d0" and "st_paths st v \<noteq> None"
    and "\<forall>(u, c) \<in> set nbrs. 0 \<le> c" and "\<forall>x dx. D x = Some dx \<longrightarrow> dx \<le> d0"
  shows "\<exists>st'. relax_neighbors D v nbrs st = Inr st' \<and>
           (\<forall>e \<in> set (st_fringe st'). e \<in> set (st_fringe st) \<or>
              (\<exists>u c k. (u, c) \<in> set nbrs \<and> e = (d0 + c, k, u)))"
  using assms
proof (induction nbrs arbitrary: st)
  case Nil
  show ?case by simp
next
  case (Cons e rest)
  obtain u c where e: "e = (u, c)" by (cases e)
  from Cons.prems(3) e have c0: "0 \<le> c" and rest: "\<forall>(u, c) \<in> set rest. 0 \<le> c"
    by auto
  have skip: "\<exists>st'. relax_neighbors D v (e # rest) st = Inr st' \<and>
           (\<forall>x \<in> set (st_fringe st'). x \<in> set (st_fringe st) \<or>
              (\<exists>u c k. (u, c) \<in> set (e # rest) \<and> x = (d0 + c, k, u)))"
    if eq: "relax_neighbors D v (e # rest) st = relax_neighbors D v rest st"
  proof -
    from Cons.IH [OF Cons.prems(1,2) rest Cons.prems(4)] obtain st'
      where run: "relax_neighbors D v rest st = Inr st'"
        and fr: "\<forall>x \<in> set (st_fringe st'). x \<in> set (st_fringe st) \<or>
              (\<exists>u c k. (u, c) \<in> set rest \<and> x = (d0 + c, k, u))"
      by blast
    from fr have "\<forall>x \<in> set (st_fringe st'). x \<in> set (st_fringe st) \<or>
              (\<exists>u c k. (u, c) \<in> set (e # rest) \<and> x = (d0 + c, k, u))"
      by (metis list.set_intros(2))
    with run eq show ?thesis by simp
  qed
  show ?case
  proof (cases "D u")
    case (Some ud)
    with Cons.prems(4) c0 have "\<not> d0 + c < ud" by fastforce
    with Some e Cons.prems(1)
    have "relax_neighbors D v (e # rest) st = relax_neighbors D v rest st"
      by (simp add: Let_def)
    then show ?thesis by (rule skip)
  next
    case None
    show ?thesis
    proof (cases "case st_seen st u of None \<Rightarrow> True | Some su \<Rightarrow> d0 + c < su")
      case False
      with None e Cons.prems(1)
      have "relax_neighbors D v (e # rest) st = relax_neighbors D v rest st"
        by (simp add: Let_def)
      then show ?thesis by (rule skip)
    next
      case True
      from Cons.prems(2) obtain pv where pv: "st_paths st v = Some pv" by auto
      define st1 where "st1 = st\<lparr>st_seen := (st_seen st)(u \<mapsto> d0 + c),
                           st_fringe := st_fringe st @ [(d0 + c, st_c st, u)],
                           st_c := st_c st + 1,
                           st_paths := (st_paths st)(u \<mapsto> pv @ [u])\<rparr>"
      from None True e Cons.prems(1) pv
      have eq: "relax_neighbors D v (e # rest) st = relax_neighbors D v rest st1"
        by (simp add: Let_def st1_def)
      from pv have p1: "st_paths st1 v \<noteq> None" by (simp add: st1_def)
      from Cons.IH [OF Cons.prems(1) p1 rest Cons.prems(4)] obtain st'
        where run: "relax_neighbors D v rest st1 = Inr st'"
          and fr: "\<forall>x \<in> set (st_fringe st'). x \<in> set (st_fringe st1) \<or>
              (\<exists>u c k. (u, c) \<in> set rest \<and> x = (d0 + c, k, u))"
        by blast
      have "\<forall>x \<in> set (st_fringe st'). x \<in> set (st_fringe st) \<or>
              (\<exists>u c k. (u, c) \<in> set (e # rest) \<and> x = (d0 + c, k, u))"
      proof
        fix x assume "x \<in> set (st_fringe st')"
        with fr consider "x \<in> set (st_fringe st)" | "x = (d0 + c, st_c st, u)"
          | "\<exists>u c k. (u, c) \<in> set rest \<and> x = (d0 + c, k, u)"
          by (auto simp: st1_def)
        then show "x \<in> set (st_fringe st) \<or>
              (\<exists>u c k. (u, c) \<in> set (e # rest) \<and> x = (d0 + c, k, u))"
        proof cases
          case 1
          then show ?thesis by simp
        next
          case 2
          with e show ?thesis by auto
        next
          case 3
          then show ?thesis by (metis list.set_intros(2))
        qed
      qed
      with run eq show ?thesis by simp
    qed
  qed
qed

lemma settle_step:
  assumes inv: "dijkstra_inv G s D st" and cl: "closed G D st" and nn: "nonneg_weights G"
    and hp: "heappop (st_fringe st) = Inr ((d0, c0, v), fr)" and nv: "D v = None"
    and nbrs: "map_of G v = Some nbrs"
    and rel: "relax_neighbors (D(v \<mapsto> d0)) v nbrs (st\<lparr>st_fringe := fr\<rparr>) = Inr st1"
  shows "dijkstra_inv G s (D(v \<mapsto> d0)) st1" and "closed G (D(v \<mapsto> d0)) st1"
proof -
  note opt = pop_optimal [OF inv cl nn hp nv]
  have inv0: "dijkstra_inv G s (D(v \<mapsto> d0)) (st\<lparr>st_fringe := fr\<rparr>)"
    using inv_drop_entry [OF inv hp, of "D(v \<mapsto> d0)"] opt(1) nv by simp
  have dv: "(D(v \<mapsto> d0)) v = Some d0" by simp
  note ri = relax_inv [OF rel inv0 dv nbrs subset_refl]
  from ri show inv1: "dijkstra_inv G s (D(v \<mapsto> d0)) st1"
    by (rule conjunct1)
  from ri have mono: "\<And>x k. st_seen st x = Some k \<Longrightarrow> \<exists>k'. st_seen st1 x = Some k' \<and> k' \<le> k"
    by simp
  from ri have relaxed: "\<And>u c. (u, c) \<in> set nbrs \<Longrightarrow> \<exists>k. st_seen st1 u = Some k \<and> k \<le> d0 + c"
    by (auto simp del: fun_upd_apply)
  show "closed G (D(v \<mapsto> d0)) st1"
    unfolding closed_def
  proof (intro allI impI)
    fix x dx ns u c
    assume dx: "(D(v \<mapsto> d0)) x = Some dx" and ns: "map_of G x = Some ns"
      and uc: "(u, c) \<in> set ns"
    show "\<exists>k. st_seen st1 u = Some k \<and> k \<le> dx + c"
    proof (cases "x = v")
      case True
      with dx ns nbrs uc relaxed [of u c] show ?thesis by simp
    next
      case False
      with dx have "D x = Some dx" by simp
      with cl ns uc obtain k where k: "st_seen st u = Some k" "k \<le> dx + c"
        unfolding closed_def by blast
      from mono [OF k(1)] k(2) show ?thesis by auto
    qed
  qed
qed

lemma dijkstra_loop_correct:
  "nonneg_weights G \<Longrightarrow> dijkstra_inv G s D st \<Longrightarrow> closed G D st \<Longrightarrow> D t = None \<Longrightarrow>
         dijkstra_loop G t D st = Inr (D', st') \<Longrightarrow> D' t = Some d \<Longrightarrow>
         (\<exists>p. st_paths st' t = Some p \<and> walk G s p d \<and> last p = t) \<and>
         (\<forall>p w. walk G s p w \<longrightarrow> last p = t \<longrightarrow> d \<le> w)"
proof (induction G t D st rule: dijkstra_loop.induct)
  case (1 G t D st)
  note nn = "1.prems"(1) and inv = "1.prems"(2) and cl = "1.prems"(3) and nt = "1.prems"(4)
    and run = "1.prems"(5) and res = "1.prems"(6)
  show ?case
  proof (cases "heappop (st_fringe st)")
    case (Inl e)
    with run have "D' = D" by simp
    with nt res show ?thesis by simp
  next
    case (Inr b)
    obtain d0 c0 v fr where b: "b = ((d0, c0, v), fr)" by (cases b) auto
    from Inr b have hp: "heappop (st_fringe st) = Inr ((d0, c0, v), fr)" by simp
    show ?thesis
    proof (cases "D v")
      case (Some dv)
      then have known: "D v \<noteq> None" by simp
      from run hp known
      have run': "dijkstra_loop G t D (st\<lparr>st_fringe := fr\<rparr>) = Inr (D', st')"
        by simp
      have inv': "dijkstra_inv G s D (st\<lparr>st_fringe := fr\<rparr>)"
        using inv_drop_entry [OF inv hp, of D] known by simp
      have cl': "closed G D (st\<lparr>st_fringe := fr\<rparr>)"
        using cl by (simp add: closed_def)
      from "1.IH"(1) [OF hp refl refl refl known nn inv' cl' nt run' res]
      show ?thesis .
    next
      case None
      note opt = pop_optimal [OF inv cl nn hp None]
      show ?thesis
      proof (cases "v = t")
        case True
        with run hp None have D': "D' = D(v \<mapsto> d0)" and st': "st' = st\<lparr>st_fringe := fr\<rparr>"
          by simp_all
        from D' res True have "d = d0" by simp
        moreover from inv opt(1) obtain p where "st_paths st v = Some p" "walk G s p d0" "last p = v"
          unfolding dijkstra_inv_def by blast
        ultimately show ?thesis using opt(2) True st' by auto
      next
        case False
        from None have nk: "\<not> D v \<noteq> None" by simp
        from run hp None False obtain nbrs where nbrs: "map_of G v = Some nbrs"
          by (cases "map_of G v") auto
        with run hp None False obtain st1
          where rel: "relax_neighbors (D(v \<mapsto> d0)) v nbrs (st\<lparr>st_fringe := fr\<rparr>) = Inr st1"
          by (cases "relax_neighbors (D(v \<mapsto> d0)) v nbrs (st\<lparr>st_fringe := fr\<rparr>)") auto
        with run hp None False nbrs
        have run': "dijkstra_loop G t (D(v \<mapsto> d0)) st1 = Inr (D', st')"
          by simp
        note step = settle_step [OF inv cl nn hp None nbrs rel]
        from False nt have nt': "(D(v \<mapsto> d0)) t = None" by simp
        from "1.IH"(2) [OF hp refl refl refl nk False nbrs rel nn step nt' run' res]
        show ?thesis .
      qed
    qed
  qed
qed

lemma init_inv: "dijkstra_inv G s Map.empty (init_dstate s)"
  unfolding dijkstra_inv_def init_dstate_def
  by (auto intro: walk_start split: if_splits)

lemma dijkstra_path_correct:
  assumes nn: "nonneg_weights (adj G)" and run: "dijkstra_path G s t = Inr p"
  shows "\<exists>d. walk (adj G) s p d \<and> last p = t \<and>
             (\<forall>p' w'. walk (adj G) s p' w' \<longrightarrow> last p' = t \<longrightarrow> d \<le> w')"
proof (cases "t = s")
  case True
  with run have "p = [s]" by (simp add: dijkstra_path_def split: if_splits)
  with True walk_start [of "adj G" s] walk_nonneg [OF _ nn] show ?thesis
    by (intro exI [of _ 0]) auto
next
  case False
  with run obtain D' st' where loop: "dijkstra_loop (adj G) t Map.empty (init_dstate s) = Inr (D', st')"
    by (auto simp: dijkstra_path_def split: if_splits sum.splits)
  with run False obtain d where d: "D' t = Some d" and p: "st_paths st' t = Some p"
    by (auto simp: dijkstra_path_def split: if_splits option.splits)
  have cl: "closed (adj G) Map.empty (init_dstate s)" by (simp add: closed_def)
  from dijkstra_loop_correct [OF nn init_inv cl _ loop d] p
  show ?thesis by auto
qed


subsection \<open>The search reaches every reachable target\<close>

text \<open>
  For every graph whose weights are not negative and whose neighbours all have an
  adjacency entry, the loop raises neither \<^verbatim>\<open>ValueError\<close> nor \<^verbatim>\<open>KeyError\<close>. When some
  walk leads from the source to the target it settles the target, so \<open>dijkstra_path\<close>
  returns a path; when no walk does, it ends with an empty fringe and the target
  unsettled, so \<open>dijkstra_path\<close> raises \<^verbatim>\<open>NetworkXNoPath\<close>.
\<close>

lemma dijkstra_loop_returns:
  "nonneg_weights G \<Longrightarrow> keys_closed G \<Longrightarrow> dijkstra_inv G s D st \<Longrightarrow> closed G D st \<Longrightarrow>
   fringe_ok G D st \<Longrightarrow> D t = None \<Longrightarrow>
   \<exists>D' st'. dijkstra_loop G t D st = Inr (D', st') \<and>
     (D' t = None \<longrightarrow> dijkstra_inv G s D' st' \<and> closed G D' st' \<and> st_fringe st' = [])"
proof (induction G t D st rule: dijkstra_loop.induct)
  case (1 G t D st)
  note nn = "1.prems"(1) and kc = "1.prems"(2) and inv = "1.prems"(3) and cl = "1.prems"(4)
    and fok = "1.prems"(5) and nt = "1.prems"(6)
  show ?case
  proof (cases "heappop (st_fringe st)")
    case (Inl e)
    then have emp: "st_fringe st = []"
      by (cases "st_fringe st") (auto simp: Let_def)
    have "dijkstra_loop G t D st = Inr (D, st)"
      by (subst dijkstra_loop.simps) (simp add: Inl del: dijkstra_loop.simps)
    with inv cl emp show ?thesis by simp
  next
    case (Inr b)
    obtain d0 c0 v fr where b: "b = ((d0, c0, v), fr)" by (cases b) auto
    from Inr b have hp: "heappop (st_fringe st) = Inr ((d0, c0, v), fr)" by simp
    note pop = heappop_Inr [OF hp]
    show ?thesis
    proof (cases "D v")
      case (Some dv)
      then have known: "D v \<noteq> None" by simp
      have eq: "dijkstra_loop G t D st = dijkstra_loop G t D (st\<lparr>st_fringe := fr\<rparr>)"
        by (subst dijkstra_loop.simps) (simp add: hp Some del: dijkstra_loop.simps)
      have inv': "dijkstra_inv G s D (st\<lparr>st_fringe := fr\<rparr>)"
        using inv_drop_entry [OF inv hp, of D] known by simp
      have cl': "closed G D (st\<lparr>st_fringe := fr\<rparr>)"
        using cl by (simp add: closed_def)
      have fok': "fringe_ok G D (st\<lparr>st_fringe := fr\<rparr>)"
        unfolding fringe_ok_def
      proof (intro allI impI)
        fix d c y assume "(d, c, y) \<in> set (st_fringe (st\<lparr>st_fringe := fr\<rparr>))"
        with pop(3) have "(d, c, y) \<in> set (st_fringe st)" by auto
        with fok show "map_of G y \<noteq> None \<and> (\<forall>x dx. D x = Some dx \<longrightarrow> dx \<le> d)"
          unfolding fringe_ok_def by blast
      qed
      from "1.IH"(1) [OF hp refl refl refl known nn kc inv' cl' fok' nt]
      show ?thesis unfolding eq .
    next
      case None
      note opt = pop_optimal [OF inv cl nn hp None]
      show ?thesis
      proof (cases "v = t")
        case True
        have "dijkstra_loop G t D st = Inr (D(v \<mapsto> d0), st\<lparr>st_fringe := fr\<rparr>)"
          by (subst dijkstra_loop.simps) (simp add: hp None True nt del: dijkstra_loop.simps)
        with True show ?thesis by simp
      next
        case False
        from None have nk: "\<not> D v \<noteq> None" by simp
        from fok pop(1) have vk: "map_of G v \<noteq> None"
          and old: "\<And>x dx. D x = Some dx \<Longrightarrow> dx \<le> d0"
          unfolding fringe_ok_def by blast+
        from vk obtain nbrs where nbrs: "map_of G v = Some nbrs" by auto
        have le0: "\<forall>x dx. (D(v \<mapsto> d0)) x = Some dx \<longrightarrow> dx \<le> d0"
          using old by auto
        from inv opt(1) obtain pv where "st_paths st v = Some pv"
          unfolding dijkstra_inv_def by blast
        then have pv: "st_paths (st\<lparr>st_fringe := fr\<rparr>) v \<noteq> None" by simp
        have nnb: "\<forall>(u, c) \<in> set nbrs. 0 \<le> c"
          using nn nbrs unfolding nonneg_weights_def by blast
        have dv: "(D(v \<mapsto> d0)) v = Some d0" by simp
        have "\<exists>st1. relax_neighbors (D(v \<mapsto> d0)) v nbrs (st\<lparr>st_fringe := fr\<rparr>) = Inr st1 \<and>
                (\<forall>e \<in> set (st_fringe st1). e \<in> set fr \<or>
                        (\<exists>u c k. (u, c) \<in> set nbrs \<and> e = (d0 + c, k, u)))"
          using relax_total [OF dv pv nnb le0] by (simp del: fun_upd_apply)
        then obtain st1
          where rel: "relax_neighbors (D(v \<mapsto> d0)) v nbrs (st\<lparr>st_fringe := fr\<rparr>) = Inr st1"
            and frs: "\<forall>e \<in> set (st_fringe st1). e \<in> set fr \<or>
                        (\<exists>u c k. (u, c) \<in> set nbrs \<and> e = (d0 + c, k, u))"
          by blast
        have eq: "dijkstra_loop G t D st = dijkstra_loop G t (D(v \<mapsto> d0)) st1"
          by (subst dijkstra_loop.simps) (simp add: hp None False nbrs rel del: dijkstra_loop.simps)
        note step = settle_step [OF inv cl nn hp None nbrs rel]
        have fok1: "fringe_ok G (D(v \<mapsto> d0)) st1"
          unfolding fringe_ok_def
        proof (intro allI impI)
          fix d c y assume mem: "(d, c, y) \<in> set (st_fringe st1)"
          with frs consider (old) "(d, c, y) \<in> set fr"
            | (new) u c' k where "(u, c') \<in> set nbrs" "(d, c, y) = (d0 + c', k, u)"
            by blast
          then show "map_of G y \<noteq> None \<and> (\<forall>x dx. (D(v \<mapsto> d0)) x = Some dx \<longrightarrow> dx \<le> d)"
          proof cases
            case old
            with pop(3) have m: "(d, c, y) \<in> set (st_fringe st)" by auto
            with fok have yk: "map_of G y \<noteq> None" and o: "\<And>x dx. D x = Some dx \<Longrightarrow> dx \<le> d"
              unfolding fringe_ok_def by blast+
            from pop(2) [OF m] have "d0 \<le> d" by simp
            with yk o show ?thesis by auto
          next
            case new
            from kc nbrs new(1) have "map_of G u \<noteq> None"
              unfolding keys_closed_def by blast
            moreover from nnb new(1) have "0 \<le> c'" by auto
            ultimately show ?thesis using new(2) le0 by fastforce
          qed
        qed
        from False nt have nt': "(D(v \<mapsto> d0)) t = None" by simp
        from "1.IH"(2) [OF hp refl refl refl nk False nbrs rel nn kc step fok1 nt']
        show ?thesis unfolding eq .
      qed
    qed
  qed
qed

lemma dijkstra_loop_reaches:
  assumes nn: "nonneg_weights G" and kc: "keys_closed G" and inv: "dijkstra_inv G s D st"
    and cl: "closed G D st" and fok: "fringe_ok G D st" and nt: "D t = None"
    and wk: "walk G s p w" and lp: "last p = t"
  shows "\<exists>D' st'. dijkstra_loop G t D st = Inr (D', st') \<and> D' t \<noteq> None"
proof -
  from dijkstra_loop_returns [OF nn kc inv cl fok nt] obtain D' where "\<exists>st'. dijkstra_loop G t D st = Inr (D', st') \<and>
     (D' t = None \<longrightarrow> dijkstra_inv G s D' st' \<and> closed G D' st' \<and> st_fringe st' = [])" ..
  then obtain st' where both: "dijkstra_loop G t D st = Inr (D', st') \<and>
     (D' t = None \<longrightarrow> dijkstra_inv G s D' st' \<and> closed G D' st' \<and> st_fringe st' = [])" ..
  from both have run: "dijkstra_loop G t D st = Inr (D', st')" by (rule conjunct1)
  from both have fin: "D' t = None \<longrightarrow> dijkstra_inv G s D' st' \<and> closed G D' st' \<and> st_fringe st' = []"
    by (rule conjunct2)
  have "D' t \<noteq> None"
  proof
    assume n: "D' t = None"
    with fin have inv': "dijkstra_inv G s D' st'" and cl': "closed G D' st'"
      and emp: "st_fringe st' = []" by simp_all
    from frontier [OF inv' cl' nn wk] lp n obtain y k
      where "D' y = None" "st_seen st' y = Some k" by auto
    with inv' obtain c where "(k, c, y) \<in> set (st_fringe st')"
      unfolding dijkstra_inv_def by blast
    with emp show False by simp
  qed
  with run show ?thesis by blast
qed

lemma dijkstra_path_succeeds:
  assumes nn: "nonneg_weights (adj G)" and kc: "keys_closed (adj G)"
    and sn: "map_of (node_attr G) s \<noteq> None" and sa: "map_of (adj G) s \<noteq> None"
    and wk: "walk (adj G) s p w" and lp: "last p = t"
  shows "\<exists>p'. dijkstra_path G s t = Inr p'"
proof (cases "t = s")
  case True
  with sn show ?thesis by (simp add: dijkstra_path_def)
next
  case False
  have cl: "closed (adj G) Map.empty (init_dstate s)" by (simp add: closed_def)
  have fok: "fringe_ok (adj G) Map.empty (init_dstate s)"
    using sa by (simp add: fringe_ok_def init_dstate_def)
  from dijkstra_loop_reaches [OF nn kc init_inv cl fok _ wk lp] obtain D' st' d
    where loop: "dijkstra_loop (adj G) t Map.empty (init_dstate s) = Inr (D', st')"
      and d: "D' t = Some d" by auto
  from dijkstra_loop_correct [OF nn init_inv cl _ loop d] obtain p'
    where "st_paths st' t = Some p'" by auto
  with loop d False sn show ?thesis by (simp add: dijkstra_path_def)
qed




subsection \<open>The graph that create\_map\_graph builds\<close>

lemma exists_edge_snoc:
  "exists_edge P (xs @ [u]) \<longleftrightarrow> exists_edge P xs \<or> (xs \<noteq> [] \<and> P (last xs) u)"
  by (induction P xs rule: exists_edge.induct) auto

lemma edge_weight_commute: "edge_weight db a b = edge_weight db b a"
  by (simp add: edge_weight_def get_edge_risk_weight_midpoint midpoint_commute [of _ "the (map_of MAP_NODES a)"]
      split: option.splits) (metis midpoint_commute)

lemma create_map_graph_Inr:
  assumes "create_map_graph db = Inr G"
  shows "\<exists>wab wbc wbd wce wde.
           G = weighted_map wab wbc wbd wce wde
           \<and> edge_weight db ''A_Home'' ''B_Intersection'' = Inr wab
           \<and> edge_weight db ''B_Intersection'' ''C_Risky_Area'' = Inr wbc
           \<and> edge_weight db ''B_Intersection'' ''D_Intersection'' = Inr wbd
           \<and> edge_weight db ''C_Risky_Area'' ''E_Work'' = Inr wce
           \<and> edge_weight db ''D_Intersection'' ''E_Work'' = Inr wde"
  using assms unfolding create_map_graph_unfold by (auto split: sum.splits)

lemma weighted_map_adj:
  assumes "map_of (adj (weighted_map wab wbc wbd wce wde)) a = Some nbrs" and "(b, c) \<in> set nbrs"
  shows "(a = ''A_Home'' \<and> b = ''B_Intersection'' \<and> c = wab) \<or>
         (a = ''B_Intersection'' \<and> b = ''A_Home'' \<and> c = wab) \<or>
         (a = ''B_Intersection'' \<and> b = ''C_Risky_Area'' \<and> c = wbc) \<or>
         (a = ''C_Risky_Area'' \<and> b = ''B_Intersection'' \<and> c = wbc) \<or>
         (a = ''B_Intersection'' \<and> b = ''D_Intersection'' \<and> c = wbd) \<or>
         (a = ''D_Intersection'' \<and> b = ''B_Intersection'' \<and> c = wbd) \<or>
         (a = ''C_Risky_Area'' \<and> b = ''E_Work'' \<and> c = wce) \<or>
         (a = ''E_Work'' \<and> b = ''C_Risky_Area'' \<and> c = wce) \<or>
         (a = ''D_Intersection'' \<and> b = ''E_Work'' \<and> c = wde) \<or>
         (a = ''E_Work'' \<and> b = ''D_Intersection'' \<and> c = wde)"
  using assms by (auto simp: weighted_map_def split: if_splits)

lemma weighted_map_has:
  "\<exists>nbrs. map_of (adj (weighted_map wab wbc wbd wce wde)) ''A_Home'' = Some nbrs \<and> (''B_Intersection'', wab) \<in> set nbrs"
  "\<exists>nbrs. map_of (adj (weighted_map wab wbc wbd wce wde)) ''B_Intersection'' = Some nbrs \<and> (''A_Home'', wab) \<in> set nbrs"
  "\<exists>nbrs. map_of (adj (weighted_map wab wbc wbd wce wde)) ''B_Intersection'' = Some nbrs \<and> (''C_Risky_Area'', wbc) \<in> set nbrs"
  "\<exists>nbrs. map_of (adj (weighted_map wab wbc wbd wce wde)) ''C_Risky_Area'' = Some nbrs \<and> (''B_Intersection'', wbc) \<in> set nbrs"
  "\<exists>nbrs. map_of (adj (weighted_map wab wbc wbd wce wde)) ''B_Intersection'' = Some nbrs \<and> (''D_Intersection'', wbd) \<in> set nbrs"
  "\<exists>nbrs. map_of (adj (weighted_map wab wbc wbd wce wde)) ''D_Intersection'' = Some nbrs \<and> (''B_Intersection'', wbd) \<in> set nbrs"
  "\<exists>nbrs. map_of (adj (weighted_map wab wbc wbd wce wde)) ''C_Risky_Area'' = Some nbrs \<and> (''E_Work'', wce) \<in> set nbrs"
  "\<exists>nbrs. map_of (adj (weighted_map wab wbc wbd wce wde)) ''E_Work'' = Some nbrs \<and> (''C_Risky_Area'', wce) \<in> set nbrs"
  "\<exists>nbrs. map_of (adj (weighted_map wab wbc wbd wce wde)) ''D_Intersection'' = Some nbrs \<and> (''E_Work'', wde) \<in> set nbrs"
  "\<exists>nbrs. map_of (adj (weighted_map wab wbc wbd wce wde)) ''E_Work'' = Some nbrs \<and> (''D_Intersection'', wde) \<in> set nbrs"
  by (simp_all add: weighted_map_def)

lemma street_cases:
  assumes "street a b"
  shows "(a = ''A_Home'' \<and> b = ''B_Intersection'') \<or>
         (a = ''B_Intersection'' \<and> b = ''A_Home'') \<or>
         (a = ''B_Intersection'' \<and> b = ''C_Risky_Area'') \<or>
         (a = ''C_Risky_Area'' \<and> b = ''B_Intersection'') \<or>
         (a = ''B_Intersection'' \<and> b = ''D_Intersection'') \<or>
         (a = ''D_Intersection'' \<and> b = ''B_Intersection'') \<or>
         (a = ''C_Risky_Area'' \<and> b = ''E_Work'') \<or>
         (a = ''E_Work'' \<and> b = ''C_Risky_Area'') \<or>
         (a = ''D_Intersection'' \<and> b = ''E_Work'') \<or>
         (a = ''E_Work'' \<and> b = ''D_Intersection'')"
  using assms by (auto simp: street_def MAP_EDGES_def)

lemma built_graph_edge:
  assumes G: "create_map_graph db = Inr G"
    and nb: "map_of (adj G) a = Some nbrs" and bc: "(b, c) \<in> set nbrs"
  shows "street a b \<and> edge_weight db a b = Inr c"
proof -
  from create_map_graph_Inr [OF G] obtain wab wbc wbd wce wde
    where Gw: "G = weighted_map wab wbc wbd wce wde"
      and ew: "edge_weight db ''A_Home'' ''B_Intersection'' = Inr wab"
        "edge_weight db ''B_Intersection'' ''C_Risky_Area'' = Inr wbc"
        "edge_weight db ''B_Intersection'' ''D_Intersection'' = Inr wbd"
        "edge_weight db ''C_Risky_Area'' ''E_Work'' = Inr wce"
        "edge_weight db ''D_Intersection'' ''E_Work'' = Inr wde"
    by blast
  have we: "edge_weight db ''B_Intersection'' ''A_Home'' = Inr wab"
        "edge_weight db ''C_Risky_Area'' ''B_Intersection'' = Inr wbc"
        "edge_weight db ''D_Intersection'' ''B_Intersection'' = Inr wbd"
        "edge_weight db ''E_Work'' ''C_Risky_Area'' = Inr wce"
        "edge_weight db ''E_Work'' ''D_Intersection'' = Inr wde"
    using ew by (simp_all add: edge_weight_commute)
  have st: "street ''A_Home'' ''B_Intersection''" "street ''B_Intersection'' ''A_Home''"
    "street ''B_Intersection'' ''C_Risky_Area''" "street ''C_Risky_Area'' ''B_Intersection''"
    "street ''B_Intersection'' ''D_Intersection''" "street ''D_Intersection'' ''B_Intersection''"
    "street ''C_Risky_Area'' ''E_Work''" "street ''E_Work'' ''C_Risky_Area''"
    "street ''D_Intersection'' ''E_Work''" "street ''E_Work'' ''D_Intersection''"
    by (simp_all add: street_def MAP_EDGES_def)
  from weighted_map_adj [OF nb [unfolded Gw] bc] ew we st show ?thesis
    by (elim disjE conjE) simp_all
qed

lemma built_graph_has_edge:
  assumes G: "create_map_graph db = Inr G"
    and st: "street a b" and w: "edge_weight db a b = Inr c"
  shows "\<exists>nbrs. map_of (adj G) a = Some nbrs \<and> (b, c) \<in> set nbrs"
proof -
  from create_map_graph_Inr [OF G] obtain wab wbc wbd wce wde
    where Gw: "G = weighted_map wab wbc wbd wce wde"
      and ew: "edge_weight db ''A_Home'' ''B_Intersection'' = Inr wab"
        "edge_weight db ''B_Intersection'' ''C_Risky_Area'' = Inr wbc"
        "edge_weight db ''B_Intersection'' ''D_Intersection'' = Inr wbd"
        "edge_weight db ''C_Risky_Area'' ''E_Work'' = Inr wce"
        "edge_weight db ''D_Intersection'' ''E_Work'' = Inr wde"
    by blast
  have we: "edge_weight db ''B_Intersection'' ''A_Home'' = Inr wab"
        "edge_weight db ''C_Risky_Area'' ''B_Intersection'' = Inr wbc"
        "edge_weight db ''D_Intersection'' ''B_Intersection'' = Inr wbd"
        "edge_weight db ''E_Work'' ''C_Risky_Area'' = Inr wce"
        "edge_weight db ''E_Work'' ''D_Intersection'' = Inr wde"
    using ew by (simp_all add: edge_weight_commute)
  note has = weighted_map_has [of wab wbc wbd wce wde]
  from street_cases [OF st] w ew we show ?thesis
    unfolding Gw by (elim disjE conjE) (use has in simp_all)
qed

lemma built_graph_nonneg:
  assumes G: "create_map_graph db = Inr G"
  shows "nonneg_weights (adj G)"
  unfolding nonneg_weights_def
proof (intro allI impI)
  fix v nbrs u c assume "map_of (adj G) v = Some nbrs" and "(u, c) \<in> set nbrs"
  from built_graph_edge [OF G this] have "edge_weight db v u = Inr c" by simp
  then show "0 \<le> c"
    by (auto simp: edge_weight_lookup split: sum.splits if_splits)
qed

lemma find_safest_route_Some:
  assumes "find_safest_route s t db = Inr (Some r)"
  shows "\<exists>G. create_map_graph db = Inr G \<and> dijkstra_path G s t = Inr (path_nodes r)
             \<and> lookup_all MAP_NODES (path_nodes r) = Inr (path_coordinates r)"
  using assms unfolding find_safest_route_unfold
  by (auto split: if_splits sum.splits)

lemma weighted_map_node:
  "map_of (node_attr (weighted_map wab wbc wbd wce wde)) n = map_option Some (map_of MAP_NODES n)"
  by (simp add: weighted_map_def map_of_map)

lemma weighted_map_keys:
  "map_of (adj (weighted_map wab wbc wbd wce wde)) n \<noteq> None \<longleftrightarrow> n \<in> set (map fst MAP_NODES)"
  unfolding MAP_NODES_keys by (simp add: weighted_map_def)

lemma weighted_map_keys_closed: "keys_closed (adj (weighted_map wab wbc wbd wce wde))"
  unfolding keys_closed_def
proof (intro allI impI)
  fix v nbrs u c
  assume "map_of (adj (weighted_map wab wbc wbd wce wde)) v = Some nbrs" and "(u, c) \<in> set nbrs"
  from weighted_map_adj [OF this]
  show "map_of (adj (weighted_map wab wbc wbd wce wde)) u \<noteq> None"
    unfolding weighted_map_keys MAP_NODES_keys by auto
qed

lemma weighted_map_connected:
  assumes "s \<in> set (map fst MAP_NODES)" and "t \<in> set (map fst MAP_NODES)"
  shows "\<exists>p w. walk (adj (weighted_map wab wbc wbd wce wde)) s p w \<and> last p = t"
proof -
  let ?G = "adj (weighted_map wab wbc wbd wce wde)"
  define R where "R x \<longleftrightarrow> (\<exists>p w. walk ?G s p w \<and> last p = x)" for x
  have Rs: "R s" unfolding R_def using walk_start [of ?G s] by force
  have step: "R b" if "R a" and "\<exists>nbrs. map_of ?G a = Some nbrs \<and> (b, c) \<in> set nbrs" for a b c
  proof -
    from that obtain p w nbrs where "walk ?G s p w" "last p = a"
      "map_of ?G a = Some nbrs" "(b, c) \<in> set nbrs"
      unfolding R_def by blast
    then have "walk ?G s (p @ [b]) (w + c)" by (auto intro: walk_step)
    then show ?thesis unfolding R_def by force
  qed
  note has = weighted_map_has [of wab wbc wbd wce wde]
  have ab: "R ''A_Home'' \<Longrightarrow> R ''B_Intersection''" by (rule step [OF _ has(1)])
  have ba: "R ''B_Intersection'' \<Longrightarrow> R ''A_Home''" by (rule step [OF _ has(2)])
  have bc: "R ''B_Intersection'' \<Longrightarrow> R ''C_Risky_Area''" by (rule step [OF _ has(3)])
  have cb: "R ''C_Risky_Area'' \<Longrightarrow> R ''B_Intersection''" by (rule step [OF _ has(4)])
  have bd: "R ''B_Intersection'' \<Longrightarrow> R ''D_Intersection''" by (rule step [OF _ has(5)])
  have db: "R ''D_Intersection'' \<Longrightarrow> R ''B_Intersection''" by (rule step [OF _ has(6)])
  have de: "R ''D_Intersection'' \<Longrightarrow> R ''E_Work''" by (rule step [OF _ has(9)])
  have ed: "R ''E_Work'' \<Longrightarrow> R ''D_Intersection''" by (rule step [OF _ has(10)])
  from assms(1) Rs have B: "R ''B_Intersection''"
    unfolding MAP_NODES_keys using ab cb db ed by auto
  with assms(2) have "R t"
    unfolding MAP_NODES_keys using ba bc bd de by auto
  then show ?thesis unfolding R_def .
qed

lemma built_walk_nodes:
  assumes G: "create_map_graph db = Inr G" and s: "map_of MAP_NODES s \<noteq> None"
    and w: "walk (adj G) s p w"
  shows "\<forall>n \<in> set p. map_of MAP_NODES n \<noteq> None"
  using w
proof (induction rule: walk.induct)
  case walk_start
  from s show ?case by simp
next
  case (walk_step p w nbrs u c)
  from built_graph_edge [OF G walk_step.hyps(2,3)] have "street (last p) u" by simp
  then have "map_of MAP_NODES u \<noteq> None"
    unfolding street_def using MAP_EDGES_nodes by blast
  with walk_step.IH show ?case by simp
qed

lemma lookup_all_Inr:
  "\<forall>n \<in> set ns. map_of nodes n \<noteq> None \<Longrightarrow> \<exists>cs. lookup_all nodes ns = Inr cs"
  by (induction ns) auto

lemma find_safest_route_succeeds:
  assumes a: "index_answers db" and s: "map_of MAP_NODES s \<noteq> None"
    and t: "map_of MAP_NODES t \<noteq> None"
  shows "\<exists>r. find_safest_route s t db = Inr (Some r)"
proof -
  from create_map_graph_answers [OF a] obtain wab wbc wbd wce wde
    where G: "create_map_graph db = Inr (weighted_map wab wbc wbd wce wde)" by blast
  let ?G = "weighted_map wab wbc wbd wce wde"
  note nn = built_graph_nonneg [OF G]
  from s t have sk: "s \<in> set (map fst MAP_NODES)" and tk: "t \<in> set (map fst MAP_NODES)"
    unfolding MAP_NODES_None by simp_all
  from s have sn: "map_of (node_attr ?G) s \<noteq> None"
    unfolding weighted_map_node by (cases "map_of MAP_NODES s") simp_all
  from sk have sa: "map_of (adj ?G) s \<noteq> None" unfolding weighted_map_keys .
  from weighted_map_connected [OF sk tk] obtain p w
    where wk: "walk (adj ?G) s p w" and lp: "last p = t" by blast
  from dijkstra_path_succeeds [OF nn weighted_map_keys_closed sn sa wk lp] obtain pn
    where dj: "dijkstra_path ?G s t = Inr pn" by blast
  from dijkstra_path_correct [OF nn dj] obtain d where "walk (adj ?G) s pn d" by blast
  from lookup_all_Inr [OF built_walk_nodes [OF G s this]] obtain pc
    where "lookup_all MAP_NODES pn = Inr pc" by blast
  with s t G dj show ?thesis
    unfolding find_safest_route_unfold by simp
qed

lemma exists_edge_length: "exists_edge P q \<Longrightarrow> 2 \<le> length q"
  by (induction P q rule: exists_edge.induct) auto

lemma street_path_nodes:
  "successively street p \<Longrightarrow> 2 \<le> length p \<Longrightarrow> \<forall>n \<in> set p. map_of MAP_NODES n \<noteq> None"
proof (induction p)
  case Nil
  then show ?case by simp
next
  case (Cons x xs)
  from Cons.prems obtain y ys where xs: "xs = y # ys" by (cases xs) auto
  with Cons.prems have st: "street x y" and rest: "successively street xs" by auto
  from st have xy: "map_of MAP_NODES x \<noteq> None" "map_of MAP_NODES y \<noteq> None"
    unfolding street_def using MAP_EDGES_nodes by blast+
  show ?case
  proof (cases "ys = []")
    case True
    with xs xy show ?thesis by simp
  next
    case False
    with xs have "2 \<le> length xs" by (cases ys) auto
    from Cons.IH [OF rest this] xy show ?thesis by simp
  qed
qed

section \<open>The claims\<close>

subsection \<open>The edge weight\<close>

text \<open>
  C10. The edge weight is symmetric in its endpoints: for all coordinates and every
  session, \<^verbatim>\<open>get_edge_risk_weight(c1, c2, db)\<close> equals \<^verbatim>\<open>get_edge_risk_weight(c2, c1, db)\<close>
  (the same weight, or the same exception), because both query the same midpoint.
\<close>

theorem get_edge_risk_weight_symmetric:
  "get_edge_risk_weight c1 c2 db = get_edge_risk_weight c2 c1 db"
  by (simp add: get_edge_risk_weight_def add.commute)

text \<open>
  C2. \<^verbatim>\<open>get_edge_risk_weight\<close> queries the risk index at the arithmetic midpoint of the
  two endpoints and nowhere else; when the query answers, the weight is 100 if some risk
  zone is within distance 0 of the midpoint and 1 otherwise (when the query raises, so
  does the function). Hence every weight it returns is 1 or 100, and positive.
\<close>

theorem get_edge_risk_weight_policy:
  "get_edge_risk_weight c1 c2 db =
     (if query_fails db (midpoint c1 c2) then Inl OperationalError
      else Inr (if in_risk_zone db (midpoint c1 c2) then 100 else 1))
   \<and> (\<forall>w. get_edge_risk_weight c1 c2 db = Inr w \<longrightarrow> (w = 1 \<or> w = 100) \<and> 0 < w)"
proof -
  have eq: "get_edge_risk_weight c1 c2 db =
     (if query_fails db (midpoint c1 c2) then Inl OperationalError
      else Inr (if in_risk_zone db (midpoint c1 c2) then 100 else 1))"
  proof (cases "query_fails db (midpoint c1 c2)")
    case True
    then show ?thesis
      by (simp add: get_edge_risk_weight_midpoint query_first_def)
  next
    case False
    then obtain r where r: "query_first db (midpoint c1 c2) = Inr r"
      by (simp add: query_first_def)
    from query_first_in_zone [OF r] r False show ?thesis
      by (simp add: get_edge_risk_weight_midpoint)
  qed
  then show ?thesis
    by (auto split: if_splits)
qed

theorem get_edge_risk_weight_policy_witness:
  "get_edge_risk_weight (-73.9960, 40.7228) (-73.9860, 40.7328) db_east_village = Inr 100
   \<and> ((100::int) = 1 \<or> (100::int) = 100) \<and> (0::int) < 100"
proof -
  have z: "in_risk_zone db_east_village (midpoint (-73.9960, 40.7228) (-73.9860, 40.7328))"
    by (simp add: in_risk_zone_def db_east_village_def box_within_def midpoint_def)
  have f: "\<not> query_fails db_east_village (midpoint (-73.9960, 40.7228) (-73.9860, 40.7328))"
    by (simp add: db_east_village_def)
  from get_edge_risk_weight_policy [of "(-73.9960, 40.7228)" "(-73.9860, 40.7328)" db_east_village]
    z f show ?thesis by simp
qed

subsection \<open>Scenario A\<close>

lemma route_scenario_A:
  assumes "edge_midpoint_in_zone db ''B_Intersection'' ''C_Risky_Area'' = Inr True"
    and "edge_midpoint_in_zone db ''C_Risky_Area'' ''E_Work'' = Inr True"
    and "edge_midpoint_in_zone db ''A_Home'' ''B_Intersection'' = Inr False"
    and "edge_midpoint_in_zone db ''B_Intersection'' ''D_Intersection'' = Inr False"
    and "edge_midpoint_in_zone db ''D_Intersection'' ''E_Work'' = Inr False"
  shows "find_safest_route ''A_Home'' ''E_Work'' db =
           Inr (Some \<lparr>path_nodes = [''A_Home'', ''B_Intersection'', ''D_Intersection'', ''E_Work''],
                      path_coordinates = [(-74.0060, 40.7128), (-73.9960, 40.7228),
                                          (-73.9950, 40.7428), (-73.9850, 40.7528)]\<rparr>)"
proof -
  have g: "create_map_graph db = Inr (weighted_map 1 100 1 100 1)"
    using assms by (simp add: create_map_graph_unfold edge_weight_lookup)
  show ?thesis
    by (simp add: find_safest_route_unfold g dijkstra_scenario_A MAP_NODES_lookup)
qed

text \<open>
  C1. On the fixed map, when the risk index puts the midpoints of B-C and C-E inside a
  risk zone and the midpoints of A-B, B-D and D-E outside,
  \<^verbatim>\<open>find_safest_route("A_Home", "E_Work")\<close> returns the nodes
  A\_Home, B\_Intersection, D\_Intersection, E\_Work with their coordinates; the edge
  weights along that path add up to 3, and the path does not pass C\_Risky\_Area.
\<close>

theorem scenario_A_route:
  assumes "edge_midpoint_in_zone db ''B_Intersection'' ''C_Risky_Area'' = Inr True"
    and "edge_midpoint_in_zone db ''C_Risky_Area'' ''E_Work'' = Inr True"
    and "edge_midpoint_in_zone db ''A_Home'' ''B_Intersection'' = Inr False"
    and "edge_midpoint_in_zone db ''B_Intersection'' ''D_Intersection'' = Inr False"
    and "edge_midpoint_in_zone db ''D_Intersection'' ''E_Work'' = Inr False"
  shows "find_safest_route ''A_Home'' ''E_Work'' db =
           Inr (Some \<lparr>path_nodes = [''A_Home'', ''B_Intersection'', ''D_Intersection'', ''E_Work''],
                      path_coordinates = [(-74.0060, 40.7128), (-73.9960, 40.7228),
                                          (-73.9950, 40.7428), (-73.9850, 40.7528)]\<rparr>)
         \<and> path_weight db [''A_Home'', ''B_Intersection'', ''D_Intersection'', ''E_Work''] = Inr 3
         \<and> ''C_Risky_Area'' \<notin> set [''A_Home'', ''B_Intersection'', ''D_Intersection'', ''E_Work'']"
proof -
  have "path_weight db [''A_Home'', ''B_Intersection'', ''D_Intersection'', ''E_Work''] = Inr 3"
    using assms by (simp add: edge_weight_lookup)
  with route_scenario_A [OF assms] show ?thesis by simp
qed

theorem scenario_A_route_witness:
  "find_safest_route ''A_Home'' ''E_Work'' db_east_village =
           Inr (Some \<lparr>path_nodes = [''A_Home'', ''B_Intersection'', ''D_Intersection'', ''E_Work''],
                      path_coordinates = [(-74.0060, 40.7128), (-73.9960, 40.7228),
                                          (-73.9950, 40.7428), (-73.9850, 40.7528)]\<rparr>)
   \<and> path_weight db_east_village [''A_Home'', ''B_Intersection'', ''D_Intersection'', ''E_Work''] = Inr 3"
  using scenario_A_route [OF east_village_lookups] by simp

subsection \<open>Failures\<close>

text \<open>
  C5. When the start or the end identifier is not a key of \<^verbatim>\<open>MAP_NODES\<close>,
  \<^verbatim>\<open>find_safest_route\<close> returns \<^verbatim>\<open>None\<close> whatever the session is: the graph is not built
  and the risk index is not queried, so even a session whose every query raises gives
  \<^verbatim>\<open>None\<close> and no exception.
\<close>

theorem unknown_node_fails_fast:
  assumes "map_of MAP_NODES s = None \<or> map_of MAP_NODES t = None"
  shows "find_safest_route s t db = Inr None"
  using assms by (auto simp: find_safest_route_unfold)

theorem unknown_node_fails_fast_witness:
  "(map_of MAP_NODES ''A_Home'' = None \<or> map_of MAP_NODES ''Z_Unknown'' = None)
   \<and> create_map_graph db_down = Inl OperationalError
   \<and> find_safest_route ''A_Home'' ''Z_Unknown'' db_down = Inr None"
proof -
  have u: "map_of MAP_NODES ''A_Home'' = None \<or> map_of MAP_NODES ''Z_Unknown'' = None"
    by (simp add: MAP_NODES_None MAP_NODES_keys)
  have "isl (edge_midpoint_in_zone db_down ''A_Home'' ''B_Intersection'')"
    by (simp add: edge_midpoint_in_zone_def MAP_NODES_lookup query_first_def db_down_def)
  then have d: "create_map_graph db_down = Inl OperationalError"
    by (intro create_map_graph_fails [of "''A_Home''" "''B_Intersection''"])
       (simp_all add: MAP_EDGES_def)
  from unknown_node_fails_fast [OF u, of db_down] u d show ?thesis by simp
qed

text \<open>
  C8. When the lookup of the risk index raises at the midpoint of some declared edge,
  \<^verbatim>\<open>create_map_graph\<close> raises and returns no graph, and \<^verbatim>\<open>find_safest_route\<close> raises
  the same exception for every pair of known nodes: no edge is given weight 1 in place
  of the failed lookup.
\<close>

theorem lookup_failure_propagates:
  assumes "(u, v) \<in> set MAP_EDGES"
    and "map_of MAP_NODES u = Some cu" and "map_of MAP_NODES v = Some cv"
    and "query_fails db (midpoint cu cv)"
  shows "create_map_graph db = Inl OperationalError
         \<and> (map_of MAP_NODES s \<noteq> None \<longrightarrow> map_of MAP_NODES t \<noteq> None \<longrightarrow>
              find_safest_route s t db = Inl OperationalError)"
proof -
  from assms(2-4) have "isl (edge_midpoint_in_zone db u v)"
    by (simp add: edge_midpoint_in_zone_def query_first_def)
  from create_map_graph_fails [OF assms(1) this] show ?thesis
    by (simp add: find_safest_route_unfold)
qed

theorem lookup_failure_propagates_witness:
  "(''C_Risky_Area'', ''E_Work'') \<in> set MAP_EDGES
   \<and> query_fails db_down (midpoint (-73.9860, 40.7328) (-73.9850, 40.7528))
   \<and> create_map_graph db_down = Inl OperationalError
   \<and> find_safest_route ''A_Home'' ''E_Work'' db_down = Inl OperationalError"
proof -
  have e: "(''C_Risky_Area'', ''E_Work'') \<in> set MAP_EDGES" by (simp add: MAP_EDGES_def)
  have q: "query_fails db_down (midpoint (-73.9860, 40.7328) (-73.9850, 40.7528))"
    by (simp add: db_down_def)
  have k: "map_of MAP_NODES ''A_Home'' \<noteq> None" "map_of MAP_NODES ''E_Work'' \<noteq> None"
    by (simp_all add: MAP_NODES_None MAP_NODES_keys)
  from lookup_failure_propagates [OF e MAP_NODES_lookup(3) MAP_NODES_lookup(5) q,
      of "''A_Home''" "''E_Work''"] e q k
  show ?thesis by simp
qed

subsection \<open>Routes on the fixed map\<close>

lemma walk_successively:
  "walk G s p w \<Longrightarrow>
     successively (\<lambda>a b. \<exists>nbrs c. map_of G a = Some nbrs \<and> (b, c) \<in> set nbrs) p"
proof (induction rule: walk.induct)
  case walk_start
  show ?case by simp
next
  case (walk_step p w nbrs u c)
  from walk_step.hyps(1) have "p \<noteq> []" by (simp add: walk_nonempty)
  with walk_step show ?case
    by (auto simp: successively_append_iff)
qed

lemma risky_walk_weight:
  assumes G: "create_map_graph db = Inr G" and w: "walk (adj G) s q w"
  shows "int (length q) - 1 \<le> w \<and>
         (exists_edge (\<lambda>a b. edge_midpoint_in_zone db a b = Inr True) q \<longrightarrow>
            int (length q) + 98 \<le> w)"
  using w
proof (induction rule: walk.induct)
  case walk_start
  show ?case by simp
next
  case (walk_step p w nbrs u c)
  from walk_step.hyps(1) have ne: "p \<noteq> []" by (simp add: walk_nonempty)
  from built_graph_edge [OF G walk_step.hyps(2,3)]
  have ew: "edge_weight db (last p) u = Inr c" by simp
  then have c1: "1 \<le> c"
    and c100: "edge_midpoint_in_zone db (last p) u = Inr True \<Longrightarrow> c = 100"
    by (auto simp: edge_weight_lookup split: sum.splits if_splits)
  from walk_step.IH c1 c100 ne show ?case
    by (auto simp: exists_edge_snoc)
qed

lemma zone_free_walk:
  assumes G: "create_map_graph db = Inr G"
  shows "p \<noteq> [] \<Longrightarrow> successively street p \<Longrightarrow>
         successively (\<lambda>a b. edge_midpoint_in_zone db a b = Inr False) p \<Longrightarrow>
         walk (adj G) (hd p) p (int (length p) - 1)"
proof (induction p rule: rev_induct)
  case Nil
  then show ?case by simp
next
  case (snoc x xs)
  show ?case
  proof (cases "xs = []")
    case True
    then show ?thesis using walk_start [of "adj G" x] by simp
  next
    case False
    with snoc.prems have st: "successively street xs" "street (last xs) x"
      and zf: "successively (\<lambda>a b. edge_midpoint_in_zone db a b = Inr False) xs"
        "edge_midpoint_in_zone db (last xs) x = Inr False"
      by (auto simp: successively_append_iff)
    from snoc.IH [OF False st(1) zf(1)]
    have wxs: "walk (adj G) (hd xs) xs (int (length xs) - 1)" .
    from zf(2) have "edge_weight db (last xs) x = Inr 1"
      by (simp add: edge_weight_lookup)
    from built_graph_has_edge [OF G st(2) this] obtain nbrs
      where "map_of (adj G) (last xs) = Some nbrs" "(x, 1) \<in> set nbrs" by blast
    from walk_step [OF wxs this] False show ?thesis by simp
  qed
qed

text \<open>
  C9. For every route that \<^verbatim>\<open>find_safest_route\<close> returns, each consecutive pair of the
  node sequence is an element of \<^verbatim>\<open>MAP_EDGES\<close> in one of the two orientations; the
  sequence is not empty, starts at the start node and ends at the end node.
\<close>

theorem route_uses_declared_streets:
  assumes "find_safest_route s t db = Inr (Some r)"
  shows "successively (\<lambda>a b. (a, b) \<in> set MAP_EDGES \<or> (b, a) \<in> set MAP_EDGES) (path_nodes r)
         \<and> path_nodes r \<noteq> [] \<and> hd (path_nodes r) = s \<and> last (path_nodes r) = t"
proof -
  from find_safest_route_Some [OF assms] obtain G
    where G: "create_map_graph db = Inr G" and dj: "dijkstra_path G s t = Inr (path_nodes r)"
    by blast
  from dijkstra_path_correct [OF built_graph_nonneg [OF G] dj] obtain d
    where w: "walk (adj G) s (path_nodes r) d" and l: "last (path_nodes r) = t" by blast
  have "successively (\<lambda>a b. (a, b) \<in> set MAP_EDGES \<or> (b, a) \<in> set MAP_EDGES) (path_nodes r)"
  proof (rule successively_mono [OF walk_successively [OF w]])
    fix a b assume "\<exists>nbrs c. map_of (adj G) a = Some nbrs \<and> (b, c) \<in> set nbrs"
    then obtain nbrs c where "map_of (adj G) a = Some nbrs" "(b, c) \<in> set nbrs" by blast
    from built_graph_edge [OF G this] show "(a, b) \<in> set MAP_EDGES \<or> (b, a) \<in> set MAP_EDGES"
      by (simp add: street_def)
  qed
  with walk_nonempty [OF w] l show ?thesis by simp
qed

theorem route_uses_declared_streets_witness:
  "find_safest_route ''A_Home'' ''E_Work'' db_east_village =
     Inr (Some \<lparr>path_nodes = [''A_Home'', ''B_Intersection'', ''D_Intersection'', ''E_Work''],
                path_coordinates = [(-74.0060, 40.7128), (-73.9960, 40.7228),
                                    (-73.9950, 40.7428), (-73.9850, 40.7528)]\<rparr>)
   \<and> successively (\<lambda>a b. (a, b) \<in> set MAP_EDGES \<or> (b, a) \<in> set MAP_EDGES)
       [''A_Home'', ''B_Intersection'', ''D_Intersection'', ''E_Work'']"
proof -
  note r = route_scenario_A [OF east_village_lookups]
  from route_uses_declared_streets [OF r] r show ?thesis by simp
qed

text \<open>
  C3. Let \<open>p\<close> be a path of declared streets between two nodes all of whose edges have
  a zone-free midpoint, and let \<open>q\<close> be a node sequence of the same length as \<open>p\<close> one
  of whose edges has an in-zone midpoint. Then the node sequence of every route that
  \<^verbatim>\<open>find_safest_route\<close> returns between the two nodes is not \<open>q\<close>; and
  \<^verbatim>\<open>find_safest_route\<close> does return a route between them whenever the index answers at
  the midpoints of the declared streets.
\<close>

theorem detour_around_risk:
  assumes p: "connects s t p"
    and pz: "successively (\<lambda>a b. edge_midpoint_in_zone db a b = Inr False) p"
    and qz: "exists_edge (\<lambda>a b. edge_midpoint_in_zone db a b = Inr True) q"
    and len: "length p = length q"
  shows "(\<forall>r. find_safest_route s t db = Inr (Some r) \<longrightarrow> path_nodes r \<noteq> q)
         \<and> (index_answers db \<longrightarrow> (\<exists>r. find_safest_route s t db = Inr (Some r)))"
proof (intro conjI allI impI)
  fix r assume r: "find_safest_route s t db = Inr (Some r)"
  show "path_nodes r \<noteq> q"
  proof
    assume eq: "path_nodes r = q"
    from find_safest_route_Some [OF r] obtain G
      where G: "create_map_graph db = Inr G" and dj: "dijkstra_path G s t = Inr (path_nodes r)"
      by blast
    from dijkstra_path_correct [OF built_graph_nonneg [OF G] dj] obtain d
      where wq: "walk (adj G) s (path_nodes r) d"
        and opt: "\<And>p' w'. walk (adj G) s p' w' \<Longrightarrow> last p' = t \<Longrightarrow> d \<le> w'"
      by blast
    from risky_walk_weight [OF G wq] qz eq have lower: "int (length q) + 98 \<le> d" by simp
    from p have "p \<noteq> []" "hd p = s" "last p = t" "successively street p"
      by (simp_all add: connects_def)
    with zone_free_walk [OF G, of p] pz have "walk (adj G) s p (int (length p) - 1)" by simp
    from opt [OF this \<open>last p = t\<close>] have "d \<le> int (length p) - 1" .
    with lower len show False by simp
  qed
next
  assume a: "index_answers db"
  from qz have "2 \<le> length q" by (rule exists_edge_length)
  with len have l2: "2 \<le> length p" by simp
  from p have ne: "p \<noteq> []" and hd: "hd p = s" and la: "last p = t"
    and st: "successively street p"
    by (simp_all add: connects_def)
  from ne hd la have "s \<in> set p" "t \<in> set p" by auto
  with street_path_nodes [OF st l2]
  have "map_of MAP_NODES s \<noteq> None" "map_of MAP_NODES t \<noteq> None" by blast+
  from find_safest_route_succeeds [OF a this]
  show "\<exists>r. find_safest_route s t db = Inr (Some r)" .
qed

theorem detour_around_risk_witness:
  "find_safest_route ''A_Home'' ''E_Work'' db_east_village =
     Inr (Some \<lparr>path_nodes = [''A_Home'', ''B_Intersection'', ''D_Intersection'', ''E_Work''],
                path_coordinates = [(-74.0060, 40.7128), (-73.9960, 40.7228),
                                    (-73.9950, 40.7428), (-73.9850, 40.7528)]\<rparr>)
   \<and> connects ''A_Home'' ''E_Work'' [''A_Home'', ''B_Intersection'', ''D_Intersection'', ''E_Work'']
   \<and> successively (\<lambda>a b. edge_midpoint_in_zone db_east_village a b = Inr False)
       [''A_Home'', ''B_Intersection'', ''D_Intersection'', ''E_Work'']
   \<and> exists_edge (\<lambda>a b. edge_midpoint_in_zone db_east_village a b = Inr True)
       [''A_Home'', ''B_Intersection'', ''C_Risky_Area'', ''E_Work'']
   \<and> index_answers db_east_village
   \<and> [''A_Home'', ''B_Intersection'', ''D_Intersection'', ''E_Work'']
       \<noteq> [''A_Home'', ''B_Intersection'', ''C_Risky_Area'', ''E_Work'']"
proof -
  note r = route_scenario_A [OF east_village_lookups]
  have p: "connects ''A_Home'' ''E_Work'' [''A_Home'', ''B_Intersection'', ''D_Intersection'', ''E_Work'']"
    by (simp add: connects_def street_def MAP_EDGES_def)
  have pz: "successively (\<lambda>a b. edge_midpoint_in_zone db_east_village a b = Inr False)
       [''A_Home'', ''B_Intersection'', ''D_Intersection'', ''E_Work'']"
    by (simp add: east_village_lookups)
  have qz: "exists_edge (\<lambda>a b. edge_midpoint_in_zone db_east_village a b = Inr True)
       [''A_Home'', ''B_Intersection'', ''C_Risky_Area'', ''E_Work'']"
    by (simp add: east_village_lookups)
  have a: "index_answers db_east_village"
    by (simp add: index_answers_def MAP_EDGES_def east_village_lookups)
  from detour_around_risk [OF p pz qz] r p pz qz a show ?thesis by simp
qed

text \<open>
  C6. For every node \<open>n\<close> of \<^verbatim>\<open>MAP_NODES\<close> and every content of the risk-zone table,
  provided the index answers at the midpoints of the declared streets (the graph is
  built before the search), \<^verbatim>\<open>find_safest_route(n, n)\<close> returns the node sequence
  \<open>[n]\<close> with the coordinate sequence of that one node.
\<close>

theorem trivial_route:
  assumes n: "map_of MAP_NODES n = Some c" and a: "index_answers db"
  shows "find_safest_route n n db = Inr (Some \<lparr>path_nodes = [n], path_coordinates = [c]\<rparr>)"
proof -
  from create_map_graph_answers [OF a] obtain wab wbc wbd wce wde
    where G: "create_map_graph db = Inr (weighted_map wab wbc wbd wce wde)" by blast
  have "dijkstra_path (weighted_map wab wbc wbd wce wde) n n = Inr [n]"
    by (simp add: dijkstra_path_def weighted_map_node n)
  with G n show ?thesis
    by (simp add: find_safest_route_unfold)
qed

theorem trivial_route_witness:
  "map_of MAP_NODES ''C_Risky_Area'' = Some (-73.9860, 40.7328) \<and> index_answers db_east_village
   \<and> find_safest_route ''C_Risky_Area'' ''C_Risky_Area'' db_east_village =
       Inr (Some \<lparr>path_nodes = [''C_Risky_Area''], path_coordinates = [(-73.9860, 40.7328)]\<rparr>)"
proof -
  have a: "index_answers db_east_village"
    by (simp add: index_answers_def MAP_EDGES_def east_village_lookups)
  from trivial_route [OF MAP_NODES_lookup(3) a] MAP_NODES_lookup(3) a show ?thesis by simp
qed

subsection \<open>Paths of equal weight\<close>

text \<open>
  The result of \<^verbatim>\<open>find_safest_route\<close> depends on the session only through the answers
  of the risk index at the midpoints of the five declared streets, not on which row the
  query returns. Between paths of equal weight the search follows the insertion order
  of the adjacency and the push counter of the fringe: with all five weights equal, the
  route from \<open>A_Home\<close> to \<open>E_Work\<close> is the one through \<open>C_Risky_Area\<close>, whose edge was
  declared first.
\<close>

lemma find_safest_route_index_answers:
  assumes "\<forall>(u, v) \<in> set MAP_EDGES. edge_midpoint_in_zone db1 u v = edge_midpoint_in_zone db2 u v"
  shows "find_safest_route s t db1 = find_safest_route s t db2"
proof -
  from assms have "edge_weight db1 ''A_Home'' ''B_Intersection'' = edge_weight db2 ''A_Home'' ''B_Intersection''"
    "edge_weight db1 ''B_Intersection'' ''C_Risky_Area'' = edge_weight db2 ''B_Intersection'' ''C_Risky_Area''"
    "edge_weight db1 ''B_Intersection'' ''D_Intersection'' = edge_weight db2 ''B_Intersection'' ''D_Intersection''"
    "edge_weight db1 ''C_Risky_Area'' ''E_Work'' = edge_weight db2 ''C_Risky_Area'' ''E_Work''"
    "edge_weight db1 ''D_Intersection'' ''E_Work'' = edge_weight db2 ''D_Intersection'' ''E_Work''"
    by (simp_all add: MAP_EDGES_def edge_weight_lookup)
  then have "create_map_graph db1 = create_map_graph db2"
    by (simp only: create_map_graph_unfold)
  then show ?thesis
    by (simp only: find_safest_route_unfold)
qed

lemma dijkstra_tie:
  "dijkstra_path (weighted_map 1 1 1 1 1) ''A_Home'' ''E_Work''
     = Inr [''A_Home'', ''B_Intersection'', ''C_Risky_Area'', ''E_Work'']"
  by code_simp

lemma no_zone_lookups:
  "edge_midpoint_in_zone db_no_zones u v =
     (case map_of MAP_NODES u of None \<Rightarrow> Inl KeyError
      | Some cu \<Rightarrow> (case map_of MAP_NODES v of None \<Rightarrow> Inl KeyError | Some cv \<Rightarrow> Inr False))"
  by (simp add: edge_midpoint_in_zone_def query_first_def db_no_zones_def split: option.splits)

lemma equal_weight_route:
  "find_safest_route ''A_Home'' ''E_Work'' db_no_zones =
     Inr (Some \<lparr>path_nodes = [''A_Home'', ''B_Intersection'', ''C_Risky_Area'', ''E_Work''],
                path_coordinates = [(-74.0060, 40.7128), (-73.9960, 40.7228),
                                    (-73.9860, 40.7328), (-73.9850, 40.7528)]\<rparr>)"
proof -
  have g: "create_map_graph db_no_zones = Inr (weighted_map 1 1 1 1 1)"
    by (simp add: create_map_graph_unfold edge_weight_lookup no_zone_lookups MAP_NODES_lookup)
  show ?thesis
    by (simp add: find_safest_route_unfold g dijkstra_tie MAP_NODES_lookup)
qed

subsection \<open>The two failure causes\<close>





























end
